theory Spec2Isabelle
  imports Main "HOL-Library.Word"
begin

unbundle bit_operations_syntax

section \<open>The Ogg Opus muxer of geanos-scene-optimizer\<close>

text \<open>
  A shallow embedding of the class \<open>OggOpusMuxer\<close> (the file \<open>ogg-muxer.js\<close>). A
  \<open>Uint8Array\<close> is a list of 8-bit words. The counters of the class are JavaScript
  numbers, that is doubles, which hold natural numbers here. \<open>pageSequence\<close> and
  \<open>segmentsInBuffer\<close> grow by less than \<open>2 ^ 53\<close> per page and per packet, and a muxer
  has fewer than \<open>2 ^ 32\<close> pages, so that their arithmetic is exact; the granule counter
  grows by whatever the caller passes, and its addition rounds as that of doubles does
  (\<open>jsAdd\<close> below). Each \<open>DataView\<close> setter reduces its argument modulo the width of
  the field, which is what \<open>of_nat\<close> and \<open>of_int\<close> into a word do. The 32-bit operators
  of JavaScript (\<open><<\<close>, \<open>>>>\<close>, \<open>&\<close>, \<open>^\<close>) are the operations of \<open>32 word\<close>.
\<close>

type_synonym byte = "8 word"
type_synonym bytes = "8 word list"

subsection \<open>State\<close>

text \<open>
  The fields of the class, in the order the constructor assigns them. \<open>crcTable\<close> is
  assigned once from \<open>_makeCRCTable()\<close> and never again; it is the constant
  \<open>makeCRCTable\<close> below. \<open>serial\<close> is drawn from \<open>Math.random\<close>; the constructor of
  the model takes it as an argument.
\<close>

record muxer =
  sampleRate :: int
  channels :: int
  serial :: nat
  pageSequence :: nat
  granulePosition :: nat
  pages :: "bytes list"
  packetBuffer :: "bytes list"
  packetSizes :: "nat list"
  segmentsInBuffer :: nat

subsection \<open>Numbers\<close>

text \<open>
  A double has a significand of 53 bits. A natural number \<open>x\<close> of more bits lies between
  two neighbouring doubles, which are multiples of \<open>2 ^ (bitLength x - 53)\<close>; it is
  rounded to the nearer one, and in the middle to the one with the even significand. A
  number of at most 53 bits is a double itself (the subtraction on \<open>nat\<close> stops at 0).
  \<open>a + b\<close> on numbers that hold naturals is the exact sum, rounded; sums beyond the largest
  double (about \<open>2 ^ 1024\<close>), where JavaScript gives \<open>Infinity\<close>, are outside this model.
  A sample count is itself a JavaScript number: an argument of the model that is no
  double, such as \<open>2 ^ 53 + 1\<close>, stands for no call of the code.
\<close>

fun bitLength :: "nat \<Rightarrow> nat" where
  "bitLength x = (if x = 0 then 0 else Suc (bitLength (x div 2)))"

declare bitLength.simps [simp del]

definition roundToDouble :: "nat \<Rightarrow> nat" where
  "roundToDouble x =
     (let u = 2 ^ (bitLength x - 53);
          q = x div u;
          r = x mod u
      in if 2 * r < u \<or> (2 * r = u \<and> even q) then q * u else (q + 1) * u)"

definition jsAdd :: "nat \<Rightarrow> nat \<Rightarrow> nat" where
  "jsAdd a b = roundToDouble (a + b)"

text \<open>The naturals that are doubles: the multiples of their own spacing.\<close>

definition isDouble :: "nat \<Rightarrow> bool" where
  "isDouble x \<longleftrightarrow> 2 ^ (bitLength x - 53) dvd x"

subsection \<open>Checksum\<close>

text \<open>
  \<open>_makeCRCTable\<close> (lines 152 to 163 of the source): the body of the inner loop, its
  eight rounds, and the table.
\<close>

definition crcRound :: "32 word \<Rightarrow> 32 word" where
  "crcRound c = (if c AND 0x80000000 \<noteq> 0 then 0x04c11db7 XOR push_bit 1 c else push_bit 1 c)"

definition crcEntry :: "nat \<Rightarrow> 32 word" where
  "crcEntry n = (crcRound ^^ 8) (push_bit 24 (of_nat n))"

definition makeCRCTable :: "32 word list" where
  "makeCRCTable = map crcEntry [0..<256]"

text \<open>
  \<open>_calculateCRC\<close> (lines 165 to 176): the loop over the buffer, with the index \<open>i\<close> of
  the byte at the head of the remaining input. At the indices 22 to 25 the byte is
  replaced by 0.
\<close>

fun crcLoop :: "nat \<Rightarrow> bytes \<Rightarrow> 32 word \<Rightarrow> 32 word" where
  "crcLoop i [] crc = crc"
| "crcLoop i (b # bs) crc =
     (if 22 \<le> i \<and> i \<le> 25
      then crcLoop (i + 1) bs
             (push_bit 8 crc XOR makeCRCTable ! unat ((drop_bit 24 crc XOR 0) AND 0xFF))
      else crcLoop (i + 1) bs
             (push_bit 8 crc XOR makeCRCTable ! unat ((drop_bit 24 crc XOR ucast b) AND 0xFF)))"

definition calculateCRC :: "bytes \<Rightarrow> 32 word" where
  "calculateCRC buffer = crcLoop 0 buffer 0"

subsection \<open>Writing into a buffer\<close>

text \<open>
  The setters of \<open>DataView\<close>, little-endian where the code passes \<open>true\<close>, and
  \<open>Uint8Array.prototype.set\<close>. In JavaScript each of them throws a \<open>RangeError\<close> when
  the write does not fit the buffer; \<open>serializePage_layout\<close> below shows that no write of
  the muxer is out of range in a state that the operations can reach.
\<close>

definition setUint8 :: "nat \<Rightarrow> byte \<Rightarrow> bytes \<Rightarrow> bytes" where
  "setUint8 off v buf = buf[off := v]"

definition setUint16 :: "nat \<Rightarrow> 16 word \<Rightarrow> bytes \<Rightarrow> bytes" where
  "setUint16 off v buf = buf[off := ucast v, off + 1 := ucast (drop_bit 8 v)]"

definition setUint32 :: "nat \<Rightarrow> 32 word \<Rightarrow> bytes \<Rightarrow> bytes" where
  "setUint32 off v buf =
     buf[off := ucast v, off + 1 := ucast (drop_bit 8 v),
         off + 2 := ucast (drop_bit 16 v), off + 3 := ucast (drop_bit 24 v)]"

definition setBigUint64 :: "nat \<Rightarrow> 64 word \<Rightarrow> bytes \<Rightarrow> bytes" where
  "setBigUint64 off v buf =
     buf[off := ucast v, off + 1 := ucast (drop_bit 8 v),
         off + 2 := ucast (drop_bit 16 v), off + 3 := ucast (drop_bit 24 v),
         off + 4 := ucast (drop_bit 32 v), off + 5 := ucast (drop_bit 40 v),
         off + 6 := ucast (drop_bit 48 v), off + 7 := ucast (drop_bit 56 v)]"

fun setBytes :: "bytes \<Rightarrow> nat \<Rightarrow> bytes \<Rightarrow> bytes" where
  "setBytes [] off buf = buf"
| "setBytes (b # bs) off buf = setBytes bs (off + 1) (buf[off := b])"

text \<open>\<open>for (i ...) view.setUint8(off + i, str.charCodeAt(i))\<close>\<close>

fun setChars :: "string \<Rightarrow> nat \<Rightarrow> bytes \<Rightarrow> bytes" where
  "setChars [] off buf = buf"
| "setChars (c # cs) off buf = setChars cs (off + 1) (setUint8 off (of_nat (of_char c)) buf)"

subsection \<open>Flushing a page\<close>

text \<open>
  \<open>flushPage\<close> (lines 50 to 105). First the segment table: the \<open>while\<close> loop for one
  packet size (\<open>sz\<close> for the source's \<open>size\<close>, a constant of HOL), and the \<open>for\<close> loop
  over \<open>packetSizes\<close>. The state of both is the buffer and the write offset. Then the
  loop that copies the packets.
\<close>

function writeLacing :: "nat \<Rightarrow> bytes \<times> nat \<Rightarrow> bytes \<times> nat" where
  "writeLacing sz (buf, offset) =
     (if sz \<ge> 255 then writeLacing (sz - 255) (setUint8 offset 255 buf, offset + 1)
      else (setUint8 offset (of_nat sz) buf, offset + 1))"
  by pat_completeness auto
termination
  by (relation "measure (\<lambda>(sz, st). sz)") auto

declare writeLacing.simps [simp del]

fun writeSegmentTable :: "nat list \<Rightarrow> bytes \<times> nat \<Rightarrow> bytes \<times> nat" where
  "writeSegmentTable [] st = st"
| "writeSegmentTable (sz # sizes) st = writeSegmentTable sizes (writeLacing sz st)"

fun writeData :: "bytes list \<Rightarrow> bytes \<times> nat \<Rightarrow> bytes \<times> nat" where
  "writeData [] st = st"
| "writeData (packet # packets) (buf, offset) =
     writeData packets (setBytes packet offset buf, offset + length packet)"

definition capturePattern :: bytes where
  "capturePattern = [0x4f, 0x67, 0x67, 0x53]"

text \<open>
  Steps 1 to 5 of \<open>flushPage\<close>: the page that the call pushes onto \<open>pages\<close>.
  \<open>packetSizes.reduce((a, b) => a + b, 0)\<close> is a left fold. \<open>headerType\<close> and
  \<open>writeHeader\<close> are step 2, \<open>unsummedPage\<close> is the buffer before step 5, and
  \<open>flushPage\<close> itself is the early return, the push and the reset of the buffers;
  \<open>pageSequence++\<close> writes the old value and then counts.
\<close>

definition headerType :: "bool \<Rightarrow> muxer \<Rightarrow> byte" where
  "headerType isLast s =
     (let h = 0;
          h = (if pageSequence s = 0 then h OR 0x02 else h);
          h = (if isLast then h OR 0x04 else h)
      in h)"

definition writeHeader :: "bool \<Rightarrow> muxer \<Rightarrow> bytes \<Rightarrow> bytes" where
  "writeHeader isLast s buffer =
     (let buffer = setBytes capturePattern 0 buffer;
          buffer = setUint8 4 0 buffer;
          buffer = setUint8 5 (headerType isLast s) buffer;
          buffer = setBigUint64 6 (of_nat (granulePosition s)) buffer;
          buffer = setUint32 14 (of_nat (serial s)) buffer;
          buffer = setUint32 18 (of_nat (pageSequence s)) buffer;
          buffer = setUint32 22 0 buffer;
          buffer = setUint8 26 (of_nat (segmentsInBuffer s)) buffer
      in buffer)"

definition unsummedPage :: "bool \<Rightarrow> muxer \<Rightarrow> bytes" where
  "unsummedPage isLast s =
     (let numSegments = segmentsInBuffer s;
          dataSize = foldl (+) 0 (packetSizes s);
          pageSize = 27 + numSegments + dataSize;
          buffer = replicate pageSize 0;
          buffer = writeHeader isLast s buffer;
          (buffer, offset) = writeSegmentTable (packetSizes s) (buffer, 27);
          (buffer, offset) = writeData (packetBuffer s) (buffer, offset)
      in buffer)"

definition serializePage :: "bool \<Rightarrow> muxer \<Rightarrow> bytes" where
  "serializePage isLast s =
     (let buffer = unsummedPage isLast s;
          crc = calculateCRC buffer
      in setUint32 22 crc buffer)"

definition flushPage :: "bool \<Rightarrow> muxer \<Rightarrow> muxer" where
  "flushPage isLast s =
     (if packetBuffer s = [] \<and> \<not> isLast then s
      else s\<lparr>pages := pages s @ [serializePage isLast s],
             pageSequence := pageSequence s + 1,
             packetBuffer := [],
             packetSizes := [],
             segmentsInBuffer := 0\<rparr>)"

subsection \<open>Adding a packet, finishing the stream\<close>

text \<open>
  \<open>addPacket\<close> (lines 30 to 44); \<open>Math.floor(size / 255)\<close> is \<open>div\<close> on \<open>nat\<close>, and
  \<open>this.granulePosition += samples\<close> is the addition of doubles.
\<close>

definition addPacket :: "bytes \<Rightarrow> nat \<Rightarrow> muxer \<Rightarrow> muxer" where
  "addPacket packetData samples s =
     (let sz = length packetData;
          numSegments = sz div 255 + 1;
          s = (if segmentsInBuffer s + numSegments > 255 then flushPage False s else s)
      in s\<lparr>packetBuffer := packetBuffer s @ [packetData],
           packetSizes := packetSizes s @ [sz],
           segmentsInBuffer := segmentsInBuffer s + numSegments,
           granulePosition := jsAdd (granulePosition s) samples\<rparr>)"

text \<open>
  \<open>getBlob\<close> (lines 107 to 111) returns a \<open>Blob\<close> made of the pages, that is their
  concatenation, and leaves the muxer in the state after the terminal flush.
\<close>

definition getBlob :: "muxer \<Rightarrow> bytes \<times> muxer" where
  "getBlob s = (let s = flushPage True s in (concat (pages s), s))"

subsection \<open>Headers and construction\<close>

text \<open>
  The two header packets, as \<open>_writeIdHeader\<close> (lines 113 to 131) and
  \<open>_writeCommentHeader\<close> (lines 133 to 150) build them before they pass them to
  \<open>addPacket\<close> and flush.
\<close>

definition idHeaderPacket :: "muxer \<Rightarrow> bytes" where
  "idHeaderPacket s =
     (let header = replicate 19 0;
          header = setChars ''OpusHead'' 0 header;
          header = setUint8 8 1 header;
          header = setUint8 9 (of_int (channels s)) header;
          header = setUint16 10 0 header;
          header = setUint32 12 (of_int (sampleRate s)) header;
          header = setUint16 16 0 header;
          header = setUint8 18 0 header
      in header)"

definition writeIdHeader :: "muxer \<Rightarrow> muxer" where
  "writeIdHeader s = flushPage False (addPacket (idHeaderPacket s) 0 s)"

definition vendor :: string where
  "vendor = ''Geano Scene Optimizer''"

definition commentHeaderPacket :: bytes where
  "commentHeaderPacket =
     (let len = 8 + 4 + length vendor + 4;
          buffer = replicate len 0;
          buffer = setChars ''OpusTags'' 0 buffer;
          buffer = setUint32 8 (of_nat (length vendor)) buffer;
          buffer = setChars vendor 12 buffer;
          buffer = setUint32 (12 + length vendor) 0 buffer
      in buffer)"

definition writeCommentHeader :: "muxer \<Rightarrow> muxer" where
  "writeCommentHeader s = flushPage False (addPacket commentHeaderPacket 0 s)"

text \<open>
  The constructor (lines 6 to 23): the field assignments, then the two headers. It has no
  \<open>throw\<close> and checks neither argument; the setters it calls reduce any number to the
  width of the field.
\<close>

definition emptyMuxer :: "int \<Rightarrow> int \<Rightarrow> nat \<Rightarrow> muxer" where
  "emptyMuxer rate numberOfChannels random =
     \<lparr>sampleRate = rate, channels = numberOfChannels, serial = random,
      pageSequence = 0, granulePosition = 0, pages = [],
      packetBuffer = [], packetSizes = [], segmentsInBuffer = 0\<rparr>"

definition construct :: "int \<Rightarrow> int \<Rightarrow> nat \<Rightarrow> muxer" where
  "construct rate numberOfChannels random =
     writeCommentHeader (writeIdHeader (emptyMuxer rate numberOfChannels random))"

text \<open>
  The expression \<open>new OggOpusMuxer(sampleRate, numberOfChannels)\<close> either returns the
  muxer or throws. No statement of the constructor throws for numbers: every write is at an
  offset inside its buffer, and \<open>BigInt\<close> is applied to the integer 0.
\<close>

datatype 'a outcome = Returned 'a | Thrown

definition newOggOpusMuxer :: "int \<Rightarrow> int \<Rightarrow> nat \<Rightarrow> muxer outcome" where
  "newOggOpusMuxer rate numberOfChannels random =
     Returned (construct rate numberOfChannels random)"

subsection \<open>Reading a page\<close>

text \<open>
  The muxer never reads a page back. The properties below speak of the fields of an
  emitted page, so the readers of \<open>DataView\<close> that a consumer would use are given here,
  little-endian, with the offsets of the page header.
\<close>

definition getUint32 :: "nat \<Rightarrow> bytes \<Rightarrow> 32 word" where
  "getUint32 off buf =
     ucast (buf ! off) OR push_bit 8 (ucast (buf ! (off + 1))) OR
     push_bit 16 (ucast (buf ! (off + 2))) OR push_bit 24 (ucast (buf ! (off + 3)))"

definition getBigUint64 :: "nat \<Rightarrow> bytes \<Rightarrow> 64 word" where
  "getBigUint64 off buf =
     ucast (buf ! off) OR push_bit 8 (ucast (buf ! (off + 1))) OR
     push_bit 16 (ucast (buf ! (off + 2))) OR push_bit 24 (ucast (buf ! (off + 3))) OR
     push_bit 32 (ucast (buf ! (off + 4))) OR push_bit 40 (ucast (buf ! (off + 5))) OR
     push_bit 48 (ucast (buf ! (off + 6))) OR push_bit 56 (ucast (buf ! (off + 7)))"

definition pageHeaderType :: "bytes \<Rightarrow> byte" where
  "pageHeaderType pg = pg ! 5"

definition pageGranule :: "bytes \<Rightarrow> 64 word" where
  "pageGranule pg = getBigUint64 6 pg"

definition pageSeqNo :: "bytes \<Rightarrow> 32 word" where
  "pageSeqNo pg = getUint32 18 pg"

definition pageChecksum :: "bytes \<Rightarrow> 32 word" where
  "pageChecksum pg = getUint32 22 pg"

definition pageSegmentCount :: "bytes \<Rightarrow> byte" where
  "pageSegmentCount pg = pg ! 26"

text \<open>The page with the four bytes of its checksum field set to zero.\<close>

definition zeroChecksum :: "bytes \<Rightarrow> bytes" where
  "zeroChecksum pg = pg[22 := 0, 23 := 0, 24 := 0, 25 := 0]"

subsection \<open>What the specification says a page holds\<close>

text \<open>
  The lacing values of a packet of byte length \<open>L\<close>, in the words of the specification:
  \<open>floor(L/255)\<close> entries of 255 followed by one entry \<open>L mod 255\<close>. \<open>segmentsOf\<close> is
  their number, the \<open>numSegments\<close> of \<open>addPacket\<close>.
\<close>

definition lacingValues :: "nat \<Rightarrow> bytes" where
  "lacingValues L = replicate (L div 255) 255 @ [of_nat (L mod 255)]"

definition segmentsOf :: "nat \<Rightarrow> nat" where
  "segmentsOf L = L div 255 + 1"

definition le32 :: "32 word \<Rightarrow> bytes" where
  "le32 v = [ucast v, ucast (drop_bit 8 v), ucast (drop_bit 16 v), ucast (drop_bit 24 v)]"

definition le64 :: "64 word \<Rightarrow> bytes" where
  "le64 v = [ucast v, ucast (drop_bit 8 v), ucast (drop_bit 16 v), ucast (drop_bit 24 v),
             ucast (drop_bit 32 v), ucast (drop_bit 40 v), ucast (drop_bit 48 v),
             ucast (drop_bit 56 v)]"

text \<open>
  The 27 bytes of the page header as the layout table of the specification gives them,
  for a checksum \<open>crc\<close>.
\<close>

definition pageHeader :: "bool \<Rightarrow> muxer \<Rightarrow> 32 word \<Rightarrow> bytes" where
  "pageHeader isLast s crc =
     capturePattern @ [0, headerType isLast s] @ le64 (of_nat (granulePosition s)) @
     le32 (of_nat (serial s)) @ le32 (of_nat (pageSequence s)) @ le32 crc @
     [of_nat (segmentsInBuffer s)]"

text \<open>
  The checksum in the words of the specification: a 32-bit CRC with the polynomial
  \<open>0x04C11DB7\<close>, most significant bit first, starting from zero, with no table. One
  byte is taken into the top of the register, which is then shifted eight times.
\<close>

definition crcShift :: "32 word \<Rightarrow> 32 word" where
  "crcShift c = (if bit c 31 then push_bit 1 c XOR 0x04C11DB7 else push_bit 1 c)"

definition crc32msb :: "bytes \<Rightarrow> 32 word" where
  "crc32msb buf = foldl (\<lambda>crc b. (crcShift ^^ 8) (crc XOR push_bit 24 (ucast b))) 0 buf"

subsection \<open>Sequences of calls\<close>

text \<open>
  The public operations of a muxer after its construction, and a run of them in order.
  \<open>flushPage()\<close> without an argument is \<open>FlushPage False\<close>.
\<close>

datatype call = AddPacket bytes nat | FlushPage bool | GetBlob

fun perform :: "call \<Rightarrow> muxer \<Rightarrow> muxer" where
  "perform (AddPacket packetData samples) s = addPacket packetData samples s"
| "perform (FlushPage isLast) s = flushPage isLast s"
| "perform GetBlob s = snd (getBlob s)"

definition run :: "call list \<Rightarrow> muxer \<Rightarrow> muxer" where
  "run calls s = fold perform calls s"

text \<open>
  The constructor is itself such a run from the muxer with its fields assigned and no page
  written: the calls that the two header writers make.
\<close>

definition headerCalls :: "int \<Rightarrow> int \<Rightarrow> call list" where
  "headerCalls rate numberOfChannels =
     [AddPacket (idHeaderPacket (emptyMuxer rate numberOfChannels 0)) 0, FlushPage False,
      AddPacket commentHeaderPacket 0, FlushPage False]"

text \<open>
  The pages that one call appends to \<open>pages\<close>, whether the call asks for a terminal
  flush, the samples that a run of calls passes to \<open>addPacket\<close>, and whether the packet
  of a call needs at most 255 segments.
\<close>

definition emitted :: "call \<Rightarrow> muxer \<Rightarrow> bytes list" where
  "emitted c s = drop (length (pages s)) (pages (perform c s))"

fun terminal :: "call \<Rightarrow> bool" where
  "terminal (AddPacket packetData samples) = False"
| "terminal (FlushPage isLast) = isLast"
| "terminal GetBlob = True"

fun samplesOf :: "call list \<Rightarrow> nat" where
  "samplesOf [] = 0"
| "samplesOf (AddPacket packetData samples # calls) = samples + samplesOf calls"
| "samplesOf (c # calls) = samplesOf calls"

fun packetFits :: "call \<Rightarrow> bool" where
  "packetFits (AddPacket packetData samples) = (segmentsOf (length packetData) \<le> 255)"
| "packetFits c = True"

text \<open>
  The relation between the three buffers and the two counters that every operation keeps:
  the sizes are those of the buffered packets, the segment count is that of the sizes, and
  the sequence counter is the number of pages.
\<close>

definition consistent :: "muxer \<Rightarrow> bool" where
  "consistent s \<longleftrightarrow>
     packetSizes s = map length (packetBuffer s) \<and>
     segmentsInBuffer s = sum_list (map segmentsOf (packetSizes s)) \<and>
     pageSequence s = length (pages s)"

subsection \<open>Which packets a page holds\<close>

text \<open>
  The pages that a run of calls appends to \<open>pages\<close>, and, for each of them, the packets
  with their sample counts that were passed to \<open>addPacket\<close> since the page before
  (\<open>groups\<close>): \<open>pending\<close> are those passed since the last page when the run starts,
  and \<open>pendingOf\<close> those passed since the last page when it ends. Whether a call emits
  a page is read off the muxer itself. \<open>packetsOf\<close> are all packets that a run passes
  to \<open>addPacket\<close>, in order. \<open>pageBody\<close> is what the specification puts behind the
  header of a page with the packets of a group, \<open>lacingCount\<close> the number of lacing
  values in it, and \<open>runningTotals\<close> are the exact cumulative sample counts after each
  group.
\<close>

definition emittedBy :: "call list \<Rightarrow> muxer \<Rightarrow> bytes list" where
  "emittedBy calls s = drop (length (pages s)) (pages (run calls s))"

fun groups :: "call list \<Rightarrow> muxer \<Rightarrow> (bytes \<times> nat) list \<Rightarrow> (bytes \<times> nat) list list" where
  "groups [] s pending = []"
| "groups (AddPacket packetData samples # calls) s pending =
     (if emitted (AddPacket packetData samples) s = []
      then groups calls (addPacket packetData samples s) (pending @ [(packetData, samples)])
      else pending # groups calls (addPacket packetData samples s) [(packetData, samples)])"
| "groups (c # calls) s pending =
     (if emitted c s = [] then groups calls (perform c s) pending
      else pending # groups calls (perform c s) [])"

fun pendingOf :: "call list \<Rightarrow> muxer \<Rightarrow> (bytes \<times> nat) list \<Rightarrow> (bytes \<times> nat) list" where
  "pendingOf [] s pending = pending"
| "pendingOf (AddPacket packetData samples # calls) s pending =
     (if emitted (AddPacket packetData samples) s = []
      then pendingOf calls (addPacket packetData samples s) (pending @ [(packetData, samples)])
      else pendingOf calls (addPacket packetData samples s) [(packetData, samples)])"
| "pendingOf (c # calls) s pending =
     (if emitted c s = [] then pendingOf calls (perform c s) pending
      else pendingOf calls (perform c s) [])"

fun packetsOf :: "call list \<Rightarrow> (bytes \<times> nat) list" where
  "packetsOf [] = []"
| "packetsOf (AddPacket packetData samples # calls) = (packetData, samples) # packetsOf calls"
| "packetsOf (c # calls) = packetsOf calls"

definition lacingCount :: "(bytes \<times> nat) list \<Rightarrow> nat" where
  "lacingCount g = sum_list (map (\<lambda>(p, k). length p div 255 + 1) g)"

definition pageBody :: "(bytes \<times> nat) list \<Rightarrow> bytes" where
  "pageBody g = concat (map (\<lambda>(p, k). lacingValues (length p)) g) @ concat (map fst g)"


section \<open>Naturals as doubles\<close>

lemma bitLength_0 [simp]: "bitLength 0 = 0"
  by (simp add: bitLength.simps)

lemma bitLength_less: "x < 2 ^ bitLength x"
proof (induction x rule: bitLength.induct)
  case (1 x)
  show ?case
  proof (cases "x = 0")
    case True
    then show ?thesis by simp
  next
    case False
    with 1 have "x div 2 < 2 ^ bitLength (x div 2)" by simp
    then have "x < 2 * 2 ^ bitLength (x div 2)" by linarith
    with False show ?thesis by (simp add: bitLength.simps [of x])
  qed
qed

lemma bitLength_ge: "0 < x \<Longrightarrow> 2 ^ (bitLength x - 1) \<le> x"
proof (induction x rule: bitLength.induct)
  case (1 x)
  show ?case
  proof (cases "x div 2 = 0")
    case True
    with 1(2) have "bitLength x = 1" by (simp add: bitLength.simps [of x])
    with 1(2) show ?thesis by simp
  next
    case False
    with 1 have ih: "2 ^ (bitLength (x div 2) - 1) \<le> x div 2" by simp
    from False have "0 < bitLength (x div 2)" by (simp add: bitLength.simps [of "x div 2"])
    then have "bitLength x - 1 = Suc (bitLength (x div 2) - 1)"
      using 1(2) by (simp add: bitLength.simps [of x])
    with ih show ?thesis by simp
  qed
qed

text \<open>The number of bits of a number between two powers of two.\<close>

lemma bitLength_eq: "2 ^ k \<le> x \<Longrightarrow> x < 2 ^ Suc k \<Longrightarrow> bitLength x = Suc k"
proof -
  assume lo: "2 ^ k \<le> x" and hi: "x < 2 ^ Suc k"
  then have pos: "0 < x" by (metis less_le_trans zero_less_numeral zero_less_power)
  have "(2::nat) ^ k < 2 ^ bitLength x"
    using lo bitLength_less [of x] by (rule le_less_trans)
  then have a: "k < bitLength x"
    by (rule power_less_imp_less_exp [rotated]) simp
  have "(2::nat) ^ (bitLength x - 1) < 2 ^ Suc k"
    using bitLength_ge [OF pos] hi by (rule le_less_trans)
  then have "bitLength x - 1 < Suc k"
    by (rule power_less_imp_less_exp [rotated]) simp
  with a show ?thesis by simp
qed

lemma bitLength_mono: "x \<le> y \<Longrightarrow> bitLength x \<le> bitLength y"
proof (cases "x = 0")
  case True
  then show ?thesis by simp
next
  case False
  assume "x \<le> y"
  then have l: "2 ^ (bitLength x - 1) \<le> y" and p: "0 < bitLength x"
    using False bitLength_ge [of x] by (simp_all add: bitLength.simps [of x])
  have "(2::nat) ^ (bitLength x - 1) < 2 ^ bitLength y"
    using l bitLength_less [of y] by (rule le_less_trans)
  then have "bitLength x - 1 < bitLength y"
    by (rule power_less_imp_less_exp [rotated]) simp
  with p show ?thesis by simp
qed

lemma bitLength_small: "x \<le> 2 ^ 53 \<Longrightarrow> 2 ^ (bitLength x - 53) dvd x"
proof (cases "x = 2 ^ 53")
  case True
  have "bitLength ((2::nat) ^ 53) = Suc 53"
    by (rule bitLength_eq) simp_all
  with True show ?thesis by simp
next
  case False
  assume "x \<le> 2 ^ 53"
  with False have x: "x < 2 ^ 53" by simp
  have "bitLength x \<le> 53"
  proof (rule ccontr)
    assume "\<not> bitLength x \<le> 53"
    then have b: "53 \<le> bitLength x - 1" by simp
    have "(2::nat) ^ 53 \<le> 2 ^ (bitLength x - 1)"
      using b by (rule power_increasing) simp
    moreover have "0 < x" using b by (cases "x = 0") simp_all
    then have "2 ^ (bitLength x - 1) \<le> x" by (rule bitLength_ge)
    ultimately have "2 ^ 53 \<le> x" by (rule order_trans)
    with x show False by simp
  qed
  then show ?thesis by simp
qed

text \<open>A multiple of the spacing is a double: rounding returns it.\<close>

lemma roundToDouble_multiple: "2 ^ (bitLength x - 53) dvd x \<Longrightarrow> roundToDouble x = x"
  by (auto simp add: roundToDouble_def Let_def)

lemma roundToDouble_exact: "x \<le> 2 ^ 53 \<Longrightarrow> roundToDouble x = x"
  by (rule roundToDouble_multiple) (rule bitLength_small)

lemma jsAdd_exact: "a + b \<le> 2 ^ 53 \<Longrightarrow> jsAdd a b = a + b"
  by (simp add: jsAdd_def roundToDouble_exact)

lemma jsAdd_0 [simp]: "jsAdd 0 0 = 0"
  by (simp add: jsAdd_exact)

lemma roundToDouble_power: "roundToDouble (2 ^ k) = 2 ^ k"
proof (rule roundToDouble_multiple)
  have "bitLength ((2::nat) ^ k) = Suc k"
    by (rule bitLength_eq) simp_all
  then show "2 ^ (bitLength ((2::nat) ^ k) - 53) dvd (2::nat) ^ k"
    by (simp add: le_imp_power_dvd)
qed


lemma isDouble_power: "isDouble (2 ^ k)"
proof -
  have "bitLength ((2::nat) ^ k) = Suc k"
    by (rule bitLength_eq) simp_all
  then show ?thesis
    by (simp add: isDouble_def le_imp_power_dvd)
qed

lemma isDouble_scaled:
  assumes "2 ^ 52 \<le> m" and "m \<le> 2 ^ 53"
  shows "isDouble (m * 2 ^ e)"
proof (cases "m = 2 ^ 53")
  case True
  have "isDouble (2 ^ (53 + e))" by (rule isDouble_power)
  with True show ?thesis by (simp only: power_add)
next
  case False
  with assms(2) have "m < 2 ^ 53" by simp
  then have "m * 2 ^ e < 2 ^ 53 * 2 ^ e" by simp
  then have hi: "m * 2 ^ e < 2 ^ Suc (52 + e)" by (simp add: power_add)
  from assms(1) have "2 ^ 52 * 2 ^ e \<le> m * 2 ^ e" by (rule mult_le_mono1)
  then have lo: "2 ^ (52 + e) \<le> m * 2 ^ e" by (simp only: power_add)
  from lo hi have "bitLength (m * 2 ^ e) = Suc (52 + e)" by (rule bitLength_eq)
  then show ?thesis by (simp add: isDouble_def)
qed

text \<open>
  A number of at least 54 bits: its quotient by the spacing has exactly 53 bits.
\<close>

lemma significand_bounds:
  assumes "2 ^ 53 \<le> x"
  shows "2 ^ 52 \<le> x div 2 ^ (bitLength x - 53)" and "x div 2 ^ (bitLength x - 53) < 2 ^ 53"
proof -
  let ?e = "bitLength x - 53"
  have "bitLength ((2::nat) ^ 53) = Suc 53" by (rule bitLength_eq) simp_all
  with bitLength_mono [OF assms] have L: "54 \<le> bitLength x" by simp
  have "(0::nat) < 2 ^ 53" by simp
  then have pos: "0 < x" using assms by (rule less_le_trans)
  have "(2::nat) ^ 52 * 2 ^ ?e = 2 ^ (bitLength x - 1)"
    using L by (simp only: power_add [symmetric]) simp
  with bitLength_ge [OF pos] have "2 ^ 52 * 2 ^ ?e \<le> x" by simp
  then have "(2 ^ 52 * 2 ^ ?e) div 2 ^ ?e \<le> x div 2 ^ ?e" by (rule div_le_mono)
  then show "2 ^ 52 \<le> x div 2 ^ ?e" by simp
  have "(2::nat) ^ 53 * 2 ^ ?e = 2 ^ bitLength x"
    using L by (simp only: power_add [symmetric]) simp
  with bitLength_less [of x] have "x < 2 ^ 53 * 2 ^ ?e" by simp
  then show "x div 2 ^ ?e < 2 ^ 53"
    by (simp add: less_mult_imp_div_less)
qed

lemma isDouble_roundToDouble: "isDouble (roundToDouble x)"
proof (cases "x \<le> 2 ^ 53")
  case True
  then show ?thesis
    by (simp only: roundToDouble_exact isDouble_def bitLength_small)
next
  case False
  then have x: "2 ^ 53 \<le> x" by simp
  let ?e = "bitLength x - 53"
  let ?q = "x div 2 ^ ?e"
  note b = significand_bounds [OF x]
  have "isDouble (?q * 2 ^ ?e)"
    using b by (intro isDouble_scaled) simp_all
  moreover have "isDouble ((?q + 1) * 2 ^ ?e)"
    using b by (intro isDouble_scaled) simp_all
  ultimately show ?thesis
    by (simp add: roundToDouble_def Let_def)
qed

text \<open>Rounding does not fall below a double that the number is not below.\<close>

lemma dvd_le_floor: "(u::nat) dvd a \<Longrightarrow> a \<le> y \<Longrightarrow> a \<le> (y div u) * u"
proof -
  assume "u dvd a" and "a \<le> y"
  from \<open>u dvd a\<close> obtain k where "a = u * k" ..
  then have a: "a = k * u" by (simp add: mult.commute)
  show ?thesis
  proof (cases "u = 0")
    case True
    with a show ?thesis by simp
  next
    case False
    from \<open>a \<le> y\<close> have "a div u \<le> y div u" by (rule div_le_mono)
    with False a have "k \<le> y div u" by simp
    then show ?thesis by (simp add: a)
  qed
qed

lemma floor_le_roundToDouble: "(y div 2 ^ (bitLength y - 53)) * 2 ^ (bitLength y - 53) \<le> roundToDouble y"
  by (simp add: roundToDouble_def Let_def)

lemma roundToDouble_ge:
  assumes "isDouble a" and "a \<le> y"
  shows "a \<le> roundToDouble y"
proof -
  let ?u = "2 ^ (bitLength y - 53) :: nat"
  have "a \<le> (y div ?u) * ?u"
  proof (cases "bitLength a = bitLength y")
    case True
    with assms(1) have "?u dvd a" by (simp add: isDouble_def)
    then show ?thesis using assms(2) by (rule dvd_le_floor)
  next
    case False
    with bitLength_mono [OF assms(2)] have less: "bitLength a < bitLength y" by simp
    show ?thesis
    proof (cases "bitLength y \<le> 53")
      case True
      then show ?thesis using assms(2) by simp
    next
      case False
      then have pos: "0 < y" by (cases "y = 0") simp_all
      have "?u dvd 2 ^ (bitLength y - 1)"
        by (rule le_imp_power_dvd) simp
      moreover have "2 ^ (bitLength y - 1) \<le> y"
        using pos by (rule bitLength_ge)
      ultimately have "2 ^ (bitLength y - 1) \<le> (y div ?u) * ?u"
        by (rule dvd_le_floor)
      moreover have "a < 2 ^ (bitLength y - 1)"
      proof -
        from less have "bitLength a \<le> bitLength y - 1" by simp
        then have "(2::nat) ^ bitLength a \<le> 2 ^ (bitLength y - 1)"
          by (rule power_increasing) simp
        with bitLength_less [of a] show ?thesis by (rule less_le_trans)
      qed
      ultimately show ?thesis by simp
    qed
  qed
  also have "\<dots> \<le> roundToDouble y" by (rule floor_le_roundToDouble)
  finally show ?thesis .
qed

lemma jsAdd_ge: "isDouble a \<Longrightarrow> a \<le> jsAdd a b"
  unfolding jsAdd_def by (rule roundToDouble_ge) simp_all

lemma isDouble_jsAdd: "isDouble (jsAdd a b)"
  unfolding jsAdd_def by (rule isDouble_roundToDouble)

lemma isDouble_0: "isDouble 0"
  by (simp add: isDouble_def)

lemma roundToDouble_odd: "roundToDouble (2 ^ 53 + 1) = 2 ^ 53"
proof -
  have "bitLength (2 ^ 53 + 1) = Suc 53"
    by (rule bitLength_eq) simp_all
  then show ?thesis
    by (simp add: roundToDouble_def Let_def)
qed

section \<open>Buffers and fields\<close>

lemma length_setUint8 [simp]: "length (setUint8 off v buf) = length buf"
  by (simp add: setUint8_def)

lemma length_setUint16 [simp]: "length (setUint16 off v buf) = length buf"
  by (simp add: setUint16_def)

lemma length_setUint32 [simp]: "length (setUint32 off v buf) = length buf"
  by (simp add: setUint32_def)

lemma length_setBigUint64 [simp]: "length (setBigUint64 off v buf) = length buf"
  by (simp add: setBigUint64_def)

lemma length_setBytes [simp]: "length (setBytes bs off buf) = length buf"
  by (induction bs off buf rule: setBytes.induct) simp_all

lemma length_setChars [simp]: "length (setChars cs off buf) = length buf"
  by (induction cs off buf rule: setChars.induct) simp_all

text \<open>A word is the little-endian composition of its bytes.\<close>

lemma word32_bytes:
  fixes v :: "32 word"
  shows "ucast (ucast v :: byte) OR push_bit 8 (ucast (ucast (drop_bit 8 v) :: byte)) OR
     push_bit 16 (ucast (ucast (drop_bit 16 v) :: byte)) OR
     push_bit 24 (ucast (ucast (drop_bit 24 v) :: byte)) = v"
  (is "?w = v")
proof (rule bit_word_eqI)
  fix n :: nat
  assume "n < LENGTH(32)"
  then consider "n < 8" | "8 \<le> n" "n < 16" | "16 \<le> n" "n < 24" | "24 \<le> n" "n < 32"
    by fastforce
  then show "bit ?w n = bit v n"
    by cases (simp_all add: bit_simps less_diff_conv2)
qed

lemma word64_bytes:
  fixes v :: "64 word"
  shows "ucast (ucast v :: byte) OR push_bit 8 (ucast (ucast (drop_bit 8 v) :: byte)) OR
     push_bit 16 (ucast (ucast (drop_bit 16 v) :: byte)) OR
     push_bit 24 (ucast (ucast (drop_bit 24 v) :: byte)) OR
     push_bit 32 (ucast (ucast (drop_bit 32 v) :: byte)) OR
     push_bit 40 (ucast (ucast (drop_bit 40 v) :: byte)) OR
     push_bit 48 (ucast (ucast (drop_bit 48 v) :: byte)) OR
     push_bit 56 (ucast (ucast (drop_bit 56 v) :: byte)) = v"
  (is "?w = v")
proof (rule bit_word_eqI)
  fix n :: nat
  assume "n < LENGTH(64)"
  then consider "n < 8" | "8 \<le> n" "n < 16" | "16 \<le> n" "n < 24" | "24 \<le> n" "n < 32"
    | "32 \<le> n" "n < 40" | "40 \<le> n" "n < 48" | "48 \<le> n" "n < 56" | "56 \<le> n" "n < 64"
    by fastforce
  then show "bit ?w n = bit v n"
    by cases (simp_all add: bit_simps less_diff_conv2)
qed

lemma getUint32_setUint32:
  "off + 3 < length buf \<Longrightarrow> getUint32 off (setUint32 off v buf) = v"
  by (simp add: getUint32_def setUint32_def word32_bytes)

lemma getBigUint64_setBigUint64:
  "off + 7 < length buf \<Longrightarrow> getBigUint64 off (setBigUint64 off v buf) = v"
  by (simp add: getBigUint64_def setBigUint64_def word64_bytes)

section \<open>The checksum does not read its own field\<close>

lemma crcLoop_update:
  "22 \<le> i + k \<Longrightarrow> i + k \<le> 25 \<Longrightarrow> crcLoop i (bs[k := v]) crc = crcLoop i bs crc"
proof (induction bs arbitrary: i k crc)
  case Nil
  then show ?case by simp
next
  case (Cons b bs)
  then show ?case by (cases k) simp_all
qed

lemma calculateCRC_setUint32_22: "calculateCRC (setUint32 22 v buf) = calculateCRC buf"
  by (simp add: calculateCRC_def setUint32_def crcLoop_update)

lemma calculateCRC_zeroChecksum: "calculateCRC (zeroChecksum buf) = calculateCRC buf"
  by (simp add: calculateCRC_def zeroChecksum_def crcLoop_update)

section \<open>The size of a page\<close>

lemma length_writeLacing [simp]: "length (fst (writeLacing sz st)) = length (fst st)"
  by (induction sz st rule: writeLacing.induct) (simp add: writeLacing.simps)

lemma length_writeSegmentTable [simp]:
  "length (fst (writeSegmentTable sizes st)) = length (fst st)"
  by (induction sizes arbitrary: st) simp_all

lemma length_writeData [simp]: "length (fst (writeData packets st)) = length (fst st)"
  by (induction packets st rule: writeData.induct) simp_all

lemma length_writeHeader [simp]: "length (writeHeader isLast s buffer) = length buffer"
  by (simp add: writeHeader_def)

lemma length_unsummedPage:
  "length (unsummedPage isLast s) = 27 + segmentsInBuffer s + foldl (+) 0 (packetSizes s)"
  unfolding unsummedPage_def Let_def
  by (simp add: split_beta)

lemma length_serializePage:
  "length (serializePage isLast s) = 27 + segmentsInBuffer s + foldl (+) 0 (packetSizes s)"
  by (simp add: serializePage_def Let_def length_unsummedPage)

lemma zeroChecksum_serializePage:
  "zeroChecksum (serializePage isLast s) = zeroChecksum (unsummedPage isLast s)"
  by (simp add: serializePage_def Let_def zeroChecksum_def setUint32_def list_update_swap)

section \<open>The layout of a page\<close>

lemma length_lacingValues [simp]: "length (lacingValues L) = segmentsOf L"
  by (simp add: lacingValues_def segmentsOf_def)

lemma lacingValues_small: "sz < 255 \<Longrightarrow> lacingValues sz = [of_nat sz]"
  by (simp add: lacingValues_def)

lemma lacingValues_large: "255 \<le> sz \<Longrightarrow> lacingValues sz = 255 # lacingValues (sz - 255)"
proof -
  assume a: "255 \<le> sz"
  then have "sz div 255 = Suc ((sz - 255) div 255)" by (simp add: le_div_geq)
  moreover from a have "sz mod 255 = (sz - 255) mod 255" by (simp add: le_mod_geq)
  ultimately show ?thesis by (simp add: lacingValues_def)
qed

lemma segmentsOf_small: "sz < 255 \<Longrightarrow> segmentsOf sz = 1"
  by (simp add: segmentsOf_def)

lemma segmentsOf_large: "255 \<le> sz \<Longrightarrow> segmentsOf sz = Suc (segmentsOf (sz - 255))"
  by (simp add: segmentsOf_def le_div_geq)

text \<open>
  A write that fits the buffer replaces the bytes behind the write offset and moves the
  offset; the buffer is split at the offset.
\<close>

lemma setBytes_append:
  "length bs \<le> length rest \<Longrightarrow>
   setBytes bs (length pre) (pre @ rest) = pre @ bs @ drop (length bs) rest"
proof (induction bs arbitrary: pre rest)
  case Nil
  then show ?case by simp
next
  case (Cons b bs)
  then obtain r rest' where rest: "rest = r # rest'" by (cases rest) auto
  have "setBytes (b # bs) (length pre) (pre @ rest) =
      setBytes bs (length (pre @ [b])) ((pre @ [b]) @ rest')"
    by (simp add: rest)
  also have "\<dots> = (pre @ [b]) @ bs @ drop (length bs) rest'"
    using Cons.prems by (intro Cons.IH) (simp add: rest)
  finally show ?case by (simp add: rest)
qed

lemma writeLacing_append:
  "segmentsOf sz \<le> length rest \<Longrightarrow>
   writeLacing sz (pre @ rest, length pre) =
     (pre @ lacingValues sz @ drop (segmentsOf sz) rest, length pre + segmentsOf sz)"
proof (induction sz arbitrary: pre rest rule: less_induct)
  case (less sz)
  from less.prems obtain r rest' where rest: "rest = r # rest'"
    by (cases rest) (auto simp add: segmentsOf_def)
  show ?case
  proof (cases "255 \<le> sz")
    case True
    have "writeLacing sz (pre @ rest, length pre) =
        writeLacing (sz - 255) ((pre @ [255]) @ rest', length (pre @ [255]))"
      using True by (simp add: writeLacing.simps [of sz] setUint8_def rest)
    also have "\<dots> =
        ((pre @ [255]) @ lacingValues (sz - 255) @ drop (segmentsOf (sz - 255)) rest',
         length (pre @ [255]) + segmentsOf (sz - 255))"
      using True less.prems by (intro less.IH) (simp_all add: rest segmentsOf_large)
    finally show ?thesis
      using True by (simp add: lacingValues_large segmentsOf_large rest)
  next
    case False
    then show ?thesis
      by (simp add: writeLacing.simps [of sz] setUint8_def rest lacingValues_small
          segmentsOf_small)
  qed
qed

lemma writeSegmentTable_append:
  "sum_list (map segmentsOf sizes) \<le> length rest \<Longrightarrow>
   writeSegmentTable sizes (pre @ rest, length pre) =
     (pre @ concat (map lacingValues sizes) @ drop (sum_list (map segmentsOf sizes)) rest,
      length pre + sum_list (map segmentsOf sizes))"
proof (induction sizes arbitrary: pre rest)
  case Nil
  then show ?case by simp
next
  case (Cons sz sizes)
  let ?n = "segmentsOf sz"
  have "writeSegmentTable (sz # sizes) (pre @ rest, length pre) =
      writeSegmentTable sizes
        ((pre @ lacingValues sz) @ drop ?n rest, length (pre @ lacingValues sz))"
    using Cons.prems by (simp add: writeLacing_append)
  also have "\<dots> = ((pre @ lacingValues sz) @ concat (map lacingValues sizes) @
      drop (sum_list (map segmentsOf sizes)) (drop ?n rest),
      length (pre @ lacingValues sz) + sum_list (map segmentsOf sizes))"
    using Cons.prems by (intro Cons.IH) simp
  finally show ?case by (simp add: add.commute)
qed

lemma writeData_append:
  "length (concat packets) \<le> length rest \<Longrightarrow>
   writeData packets (pre @ rest, length pre) =
     (pre @ concat packets @ drop (length (concat packets)) rest,
      length pre + length (concat packets))"
proof (induction packets arbitrary: pre rest)
  case Nil
  then show ?case by simp
next
  case (Cons p packets)
  have "writeData (p # packets) (pre @ rest, length pre) =
      writeData packets ((pre @ p) @ drop (length p) rest, length (pre @ p))"
    using Cons.prems by (simp add: setBytes_append)
  also have "\<dots> = ((pre @ p) @ concat packets @
      drop (length (concat packets)) (drop (length p) rest),
      length (pre @ p) + length (concat packets))"
    using Cons.prems by (intro Cons.IH) simp
  finally show ?case by (simp add: add.commute)
qed

lemma list_update_Cons_numeral: "(x # xs)[numeral v := y] = x # xs[numeral v - 1 := y]"
  by (simp add: numeral_eq_Suc)

lemma replicate_27:
  "replicate 27 x =
     [x, x, x, x, x, x, x, x, x, x, x, x, x, x, x, x, x, x, x, x, x, x, x, x, x, x, x]"
  by (simp add: eval_nat_numeral)

lemma writeHeader_replicate:
  "writeHeader isLast s (replicate (27 + n) 0) = pageHeader isLast s 0 @ replicate n 0"
  by (simp add: replicate_add replicate_27 writeHeader_def Let_def capturePattern_def
      setUint8_def setUint32_def setBigUint64_def pageHeader_def le32_def le64_def
      list_update_Cons_numeral)

lemma length_pageHeader [simp]: "length (pageHeader isLast s crc) = 27"
  by (simp add: pageHeader_def capturePattern_def le32_def le64_def)

lemma foldl_add_sum_list: "foldl (+) a (xs :: nat list) = a + sum_list xs"
  by (induction xs arbitrary: a) simp_all

text \<open>
  In a consistent state the writes of \<open>flushPage\<close> tile the buffer: the header, the lacing
  values of each buffered packet in order, the packets.
\<close>

lemma unsummedPage_layout:
  assumes "consistent s"
  shows "unsummedPage isLast s =
    pageHeader isLast s 0 @ concat (map lacingValues (packetSizes s)) @ concat (packetBuffer s)"
proof -
  let ?n = "sum_list (map segmentsOf (packetSizes s))"
  let ?d = "length (concat (packetBuffer s))"
  let ?h = "pageHeader isLast s 0"
  let ?t = "concat (map lacingValues (packetSizes s))"
  from assms have sizes: "packetSizes s = map length (packetBuffer s)"
    and segs: "segmentsInBuffer s = ?n"
    by (simp_all add: consistent_def)
  have d: "foldl (+) 0 (packetSizes s) = ?d"
    by (simp add: foldl_add_sum_list sizes length_concat)
  have "writeHeader isLast s (replicate (27 + segmentsInBuffer s + foldl (+) 0 (packetSizes s)) 0)
      = ?h @ replicate (?n + ?d) 0"
    using writeHeader_replicate [of isLast s "?n + ?d"] by (simp add: segs d add.assoc)
  moreover have "writeSegmentTable (packetSizes s) (?h @ replicate (?n + ?d) 0, 27)
      = (?h @ ?t @ replicate ?d 0, 27 + ?n)"
    using writeSegmentTable_append [of "packetSizes s" "replicate (?n + ?d) 0" ?h]
    by (simp add: replicate_add)
  moreover have "writeData (packetBuffer s) ((?h @ ?t) @ replicate ?d 0, 27 + ?n)
      = ((?h @ ?t) @ concat (packetBuffer s), 27 + ?n + ?d)"
    using writeData_append [of "packetBuffer s" "replicate ?d 0" "?h @ ?t"]
    by (simp add: length_concat comp_def)
  ultimately show ?thesis
    by (simp add: unsummedPage_def Let_def)
qed

lemma setUint32_22_pageHeader:
  "setUint32 22 crc (pageHeader isLast s 0 @ rest) = pageHeader isLast s crc @ rest"
  by (simp add: pageHeader_def capturePattern_def le32_def le64_def setUint32_def
      list_update_Cons_numeral)

lemma serializePage_layout:
  assumes "consistent s"
  shows "serializePage isLast s =
    pageHeader isLast s (calculateCRC (unsummedPage isLast s)) @
    concat (map lacingValues (packetSizes s)) @ concat (packetBuffer s)"
  by (simp add: serializePage_def Let_def unsummedPage_layout [OF assms, symmetric])
     (simp add: unsummedPage_layout [OF assms] setUint32_22_pageHeader)

lemma pageHeader_fields:
  "take 4 (pageHeader isLast s crc @ rest) = capturePattern"
  "pageHeaderType (pageHeader isLast s crc @ rest) = headerType isLast s"
  "pageGranule (pageHeader isLast s crc @ rest) = of_nat (granulePosition s)"
  "pageSeqNo (pageHeader isLast s crc @ rest) = of_nat (pageSequence s)"
  "pageChecksum (pageHeader isLast s crc @ rest) = crc"
  "pageSegmentCount (pageHeader isLast s crc @ rest) = of_nat (segmentsInBuffer s)"
  "drop 27 (pageHeader isLast s crc @ rest) = rest"
  by (simp_all add: pageHeader_def capturePattern_def le32_def le64_def pageHeaderType_def
      pageGranule_def pageSeqNo_def pageChecksum_def pageSegmentCount_def getUint32_def
      getBigUint64_def word32_bytes word64_bytes)

section \<open>Runs of calls\<close>

lemma consistent_emptyMuxer: "consistent (emptyMuxer rate n r)"
  by (simp add: consistent_def emptyMuxer_def)

lemma consistent_flushPage: "consistent s \<Longrightarrow> consistent (flushPage isLast s)"
  by (simp add: consistent_def flushPage_def)

lemma consistent_addPacket: "consistent s \<Longrightarrow> consistent (addPacket p n s)"
  by (simp add: consistent_def addPacket_def Let_def flushPage_def segmentsOf_def)

lemma consistent_perform: "consistent s \<Longrightarrow> consistent (perform c s)"
  by (cases c) (simp_all add: consistent_flushPage consistent_addPacket getBlob_def Let_def)

lemma consistent_run: "consistent s \<Longrightarrow> consistent (run calls s)"
  unfolding run_def by (induction calls arbitrary: s) (simp_all add: consistent_perform)

lemma run_append: "run (xs @ ys) s = run ys (run xs s)"
  by (simp add: run_def)

lemma run_snoc: "run (xs @ [c]) s = perform c (run xs s)"
  by (simp add: run_def)

lemma construct_run: "construct rate n r = run (headerCalls rate n) (emptyMuxer rate n r)"
  by (simp add: construct_def run_def headerCalls_def writeCommentHeader_def writeIdHeader_def
      idHeaderPacket_def emptyMuxer_def)

text \<open>
  Every state of a constructed muxer is reached by a run from the muxer without pages
  that starts with the calls of the constructor.
\<close>

lemma run_construct:
  "run calls (construct rate n r) = run (headerCalls rate n @ calls) (emptyMuxer rate n r)"
  by (simp add: run_append construct_run)

lemma pages_flushPage:
  "pages (flushPage isLast s) =
     (if packetBuffer s = [] \<and> \<not> isLast then pages s else pages s @ [serializePage isLast s])"
  by (simp add: flushPage_def)

lemma emitted_FlushPage:
  "emitted (FlushPage isLast) s =
     (if packetBuffer s = [] \<and> \<not> isLast then [] else [serializePage isLast s])"
  by (simp add: emitted_def pages_flushPage)

lemma emitted_GetBlob: "emitted GetBlob s = [serializePage True s]"
  by (simp add: emitted_def getBlob_def Let_def pages_flushPage)

lemma emitted_AddPacket:
  "emitted (AddPacket p n) s =
     (if segmentsInBuffer s + segmentsOf (length p) > 255 \<and> packetBuffer s \<noteq> []
      then [serializePage False s] else [])"
  by (simp add: emitted_def addPacket_def Let_def pages_flushPage segmentsOf_def)

lemma pages_perform: "pages (perform c s) = pages s @ emitted c s"
  by (cases c) (simp_all add: emitted_FlushPage emitted_GetBlob emitted_AddPacket
      pages_flushPage getBlob_def addPacket_def Let_def segmentsOf_def)

lemma emitted_cases:
  "pg \<in> set (emitted c s) \<Longrightarrow> pg = serializePage (terminal c) s"
  by (cases c) (simp_all add: emitted_FlushPage emitted_GetBlob emitted_AddPacket split: if_splits)

section \<open>The table-driven checksum is the bitwise one\<close>

lemma top_bit_test: "((c :: 32 word) AND 0x80000000 \<noteq> 0) = bit c 31"
proof -
  have "(0x80000000 :: 32 word) = 2 ^ 31" by simp
  then show ?thesis by (simp only: and_exp_eq_0_iff_not_bit) simp
qed

lemma crcRound_crcShift: "crcRound c = crcShift c"
  by (simp add: crcRound_def crcShift_def top_bit_test xor.commute)

lemma crcShift_xor: "crcShift (a XOR b) = crcShift a XOR crcShift b"
  by (simp add: crcShift_def bit_xor_iff push_bit_xor xor.assoc xor.left_commute xor.commute)

lemma crcShift_funpow_xor:
  "(crcShift ^^ k) (a XOR b) = (crcShift ^^ k) a XOR (crcShift ^^ k) b"
  by (induction k) (simp_all add: crcShift_xor)

lemma crcShift_funpow_low:
  "k \<le> 32 \<Longrightarrow> take_bit (32 - k) c = c \<Longrightarrow> (crcShift ^^ k) c = push_bit k c"
proof (induction k)
  case 0
  then show ?case by simp
next
  case (Suc k)
  from Suc.prems have c: "take_bit (31 - k) c = c" by simp
  have "take_bit (32 - k) c = take_bit (32 - k) (take_bit (31 - k) c)"
    by (simp only: c)
  also have "\<dots> = take_bit (31 - k) c"
    by (simp add: min_def)
  finally have "take_bit (32 - k) c = c"
    by (simp only: c)
  with Suc have ih: "(crcShift ^^ k) c = push_bit k c" by simp
  have "bit c (31 - k) = bit (take_bit (31 - k) c) (31 - k)"
    by (simp only: c)
  then have "\<not> bit c (31 - k)"
    by (simp add: bit_take_bit_iff)
  then have nb: "\<not> bit (push_bit k c) 31"
    by (simp add: bit_push_bit_iff)
  have "(crcShift ^^ Suc k) c = crcShift (push_bit k c)"
    by (simp add: ih)
  also from nb have "\<dots> = push_bit 1 (push_bit k c)"
    by (simp only: crcShift_def if_False)
  also have "\<dots> = push_bit (Suc k) c"
    by (simp only: push_bit_push_bit) simp
  finally show ?case .
qed

lemma makeCRCTable_nth:
  "i < 256 \<Longrightarrow> makeCRCTable ! i = (crcShift ^^ 8) (push_bit 24 (of_nat i))"
proof -
  assume "i < 256"
  then have "makeCRCTable ! i = crcEntry i"
    by (simp add: makeCRCTable_def)
  also have "crcRound = crcShift"
    by (rule ext) (rule crcRound_crcShift)
  then have "crcEntry i = (crcShift ^^ 8) (push_bit 24 (of_nat i))"
    by (simp add: crcEntry_def)
  finally show ?thesis .
qed

lemma low_byte_bound: "unat ((x :: 32 word) AND 0xFF) < 256"
proof -
  have "x AND 0xFF \<le> 0xFF" by (rule word_and_le1)
  then have "unat (x AND 0xFF) \<le> unat (0xFF :: 32 word)" by (simp only: word_le_nat_alt)
  then show ?thesis by simp
qed

lemma register_split:
  fixes crc :: "32 word" and b :: byte
  shows "crc XOR push_bit 24 (ucast b) =
    push_bit 24 ((drop_bit 24 crc XOR ucast b) AND 0xFF) XOR take_bit 24 crc"
proof (rule bit_word_eqI)
  fix n :: nat
  assume "n < LENGTH(32)"
  have m: "(0xFF :: 32 word) = mask 8" by (simp add: mask_eq_exp_minus_1)
  show "bit (crc XOR push_bit 24 (ucast b)) n =
    bit (push_bit 24 ((drop_bit 24 crc XOR ucast b) AND 0xFF) XOR take_bit 24 crc) n"
    using \<open>n < LENGTH(32)\<close> unfolding m
    by (cases "n < 24") (auto simp add: bit_simps)
qed

lemma table_step:
  fixes crc :: "32 word" and b :: byte
  shows "push_bit 8 crc XOR makeCRCTable ! unat ((drop_bit 24 crc XOR ucast b) AND 0xFF) =
    (crcShift ^^ 8) (crc XOR push_bit 24 (ucast b))"
proof -
  let ?t = "(drop_bit 24 crc XOR ucast b) AND 0xFF"
  have "(crcShift ^^ 8) (crc XOR push_bit 24 (ucast b)) =
      (crcShift ^^ 8) (push_bit 24 ?t) XOR (crcShift ^^ 8) (take_bit 24 crc)"
    by (simp only: register_split crcShift_funpow_xor)
  also have "(crcShift ^^ 8) (take_bit 24 crc) = push_bit 8 (take_bit 24 crc)"
    by (rule crcShift_funpow_low) simp_all
  also have "push_bit 8 (take_bit 24 crc) = push_bit 8 crc"
    by (rule bit_word_eqI) (auto simp add: bit_simps)
  also have "(crcShift ^^ 8) (push_bit 24 ?t) = makeCRCTable ! unat ?t"
    by (simp add: makeCRCTable_nth low_byte_bound)
  finally show ?thesis by (simp add: xor.commute)
qed

lemma crcLoop_foldl:
  "(\<forall>j < length bs. 22 \<le> i + j \<and> i + j \<le> 25 \<longrightarrow> bs ! j = 0) \<Longrightarrow>
   crcLoop i bs crc = foldl (\<lambda>crc b. (crcShift ^^ 8) (crc XOR push_bit 24 (ucast b))) crc bs"
proof (induction bs arbitrary: i crc)
  case Nil
  then show ?case by simp
next
  case (Cons b bs)
  have tail: "\<forall>j < length bs. 22 \<le> Suc i + j \<and> Suc i + j \<le> 25 \<longrightarrow> bs ! j = 0"
    using Cons.prems by (auto dest: spec [of _ "Suc j" for j])
  have head: "22 \<le> i \<and> i \<le> 25 \<Longrightarrow> b = 0"
    using Cons.prems by (auto dest: spec [of _ 0])
  show ?case
  proof (cases "22 \<le> i \<and> i \<le> 25")
    case True
    with head have b: "b = 0" by simp
    from True have "crcLoop i (b # bs) crc =
        crcLoop (Suc i) bs
          (push_bit 8 crc XOR makeCRCTable ! unat ((drop_bit 24 crc XOR ucast b) AND 0xFF))"
      by (simp add: b)
    then show ?thesis
      by (simp only: table_step Cons.IH [OF tail] foldl_Cons)
  next
    case False
    then have "crcLoop i (b # bs) crc =
        crcLoop (Suc i) bs
          (push_bit 8 crc XOR makeCRCTable ! unat ((drop_bit 24 crc XOR ucast b) AND 0xFF))"
      by auto
    then show ?thesis
      by (simp only: table_step Cons.IH [OF tail] foldl_Cons)
  qed
qed

lemma calculateCRC_crc32msb: "calculateCRC buf = crc32msb (zeroChecksum buf)"
proof -
  have "calculateCRC buf = calculateCRC (zeroChecksum buf)"
    by (simp add: calculateCRC_zeroChecksum)
  also have "\<dots> = crc32msb (zeroChecksum buf)"
    unfolding calculateCRC_def crc32msb_def
  proof (rule crcLoop_foldl, intro allI impI)
    fix j :: nat
    assume "j < length (zeroChecksum buf)" and "22 \<le> 0 + j \<and> 0 + j \<le> 25"
    then have "j < length buf" and "j = 22 \<or> j = 23 \<or> j = 24 \<or> j = 25"
      by (auto simp add: zeroChecksum_def)
    then show "zeroChecksum buf ! j = 0"
      by (auto simp add: zeroChecksum_def)
  qed
  finally show ?thesis .
qed

section \<open>Fields of emitted pages\<close>

lemma pageChecksum_serializePage:
  "pageChecksum (serializePage isLast s) = calculateCRC (unsummedPage isLast s)"
  by (simp add: pageChecksum_def serializePage_def Let_def getUint32_setUint32 length_unsummedPage)

lemma checksum_serializePage:
  "pageChecksum (serializePage isLast s) = calculateCRC (zeroChecksum (serializePage isLast s))"
  by (simp add: pageChecksum_serializePage zeroChecksum_serializePage calculateCRC_zeroChecksum)

lemma pages_run_cases:
  "pg \<in> set (pages (run calls s)) \<Longrightarrow>
   pg \<in> set (pages s) \<or> (\<exists>isLast s'. pg = serializePage isLast s')"
proof (induction calls arbitrary: pg rule: rev_induct)
  case Nil
  then show ?case by (simp add: run_def)
next
  case (snoc c calls)
  then show ?case
    by (auto simp add: run_snoc pages_perform dest: emitted_cases)
qed

lemma headerType_bits:
  "(headerType isLast s AND 0x02 \<noteq> 0) = (pageSequence s = 0)"
  "(headerType isLast s AND 0x04 \<noteq> 0) = isLast"
  by (simp_all add: headerType_def Let_def)


lemma emitted_shape: "emitted c s = [] \<or> emitted c s = [serializePage (terminal c) s]"
  by (cases c) (simp_all add: emitted_FlushPage emitted_GetBlob emitted_AddPacket)

lemma seqNo_run:
  "consistent s \<Longrightarrow> map pageSeqNo (pages s) = map of_nat [0..<length (pages s)] \<Longrightarrow>
   map pageSeqNo (pages (run calls s)) = map of_nat [0..<length (pages (run calls s))]"
proof (induction calls rule: rev_induct)
  case Nil
  then show ?case by (simp add: run_def)
next
  case (snoc c calls)
  let ?s = "run calls s"
  have c: "consistent ?s" using snoc.prems(1) by (rule consistent_run)
  then have n: "pageSequence ?s = length (pages ?s)" by (simp add: consistent_def)
  have q: "pageSeqNo (serializePage (terminal c) ?s) = of_nat (length (pages ?s))"
    by (simp add: serializePage_layout [OF c] pageHeader_fields n)
  from emitted_shape [of c ?s] show ?case
  proof
    assume "emitted c ?s = []"
    with snoc show ?thesis by (simp add: run_snoc pages_perform)
  next
    assume "emitted c ?s = [serializePage (terminal c) ?s]"
    with snoc q show ?thesis by (simp add: run_snoc pages_perform)
  qed
qed

lemma pages_construct:
  "pages (construct rate n r) =
    [serializePage False
       (addPacket (idHeaderPacket (emptyMuxer rate n r)) 0 (emptyMuxer rate n r)),
     serializePage False
       (addPacket commentHeaderPacket 0 (writeIdHeader (emptyMuxer rate n r)))]"
  by (simp add: construct_def writeCommentHeader_def writeIdHeader_def pages_flushPage
      addPacket_def Let_def emptyMuxer_def flushPage_def)

lemma serializePage_fields:
  assumes "consistent s"
  shows "take 4 (serializePage isLast s) = capturePattern"
    and "pageHeaderType (serializePage isLast s) = headerType isLast s"
    and "pageGranule (serializePage isLast s) = of_nat (granulePosition s)"
    and "pageSeqNo (serializePage isLast s) = of_nat (pageSequence s)"
    and "pageSegmentCount (serializePage isLast s) = of_nat (segmentsInBuffer s)"
    and "drop 27 (serializePage isLast s) =
           concat (map lacingValues (packetSizes s)) @ concat (packetBuffer s)"
  by (simp_all only: serializePage_layout [OF assms] pageHeader_fields)

lemma pages_getBlob: "pages (snd (getBlob s)) = pages s @ [serializePage True s]"
  by (simp add: getBlob_def Let_def pages_flushPage)

lemma run_headerCalls_GetBlob:
  "pages (run (headerCalls rate n @ [GetBlob]) (emptyMuxer rate n r)) =
     pages (construct rate n r) @ [serializePage True (construct rate n r)]"
  by (simp add: run_snoc construct_run [symmetric] pages_getBlob)

lemma state_construct:
  "packetBuffer (construct rate n r) = []"
  "packetSizes (construct rate n r) = []"
  "segmentsInBuffer (construct rate n r) = 0"
  "granulePosition (construct rate n r) = 0"
  "pageSequence (construct rate n r) = 2"
  by (simp_all add: construct_def writeCommentHeader_def writeIdHeader_def
      addPacket_def Let_def emptyMuxer_def flushPage_def)

lemma segmentsOf_pos: "0 < segmentsOf L"
  by (simp add: segmentsOf_def)

lemma segments_zero_iff:
  assumes "consistent s"
  shows "(segmentsInBuffer s = 0) = (packetBuffer s = [])"
proof (cases "packetBuffer s")
  case Nil
  with assms show ?thesis by (simp add: consistent_def)
next
  case (Cons p ps)
  with assms have "segmentsInBuffer s = segmentsOf (length p) + sum_list (map segmentsOf (map length ps))"
    by (simp add: consistent_def)
  with Cons segmentsOf_pos [of "length p"] show ?thesis by simp
qed

lemma segments_addPacket:
  assumes "consistent s"
  shows "segmentsInBuffer (addPacket p k s) =
     (if 255 < segmentsInBuffer s + segmentsOf (length p) then segmentsOf (length p)
      else segmentsInBuffer s + segmentsOf (length p))"
  using segments_zero_iff [OF assms]
  by (auto simp add: addPacket_def Let_def flushPage_def segmentsOf_def)

lemma packetBuffer_addPacket:
  "packetBuffer (addPacket p k s) =
     (if 255 < segmentsInBuffer s + segmentsOf (length p) then [p] else packetBuffer s @ [p])"
  by (simp add: addPacket_def Let_def flushPage_def segmentsOf_def)

lemma segments_perform_le:
  assumes "consistent s" and "segmentsInBuffer s \<le> 255" and "packetFits c"
  shows "segmentsInBuffer (perform c s) \<le> 255"
proof (cases c)
  case (AddPacket p k)
  with assms show ?thesis by (simp add: segments_addPacket)
next
  case (FlushPage b)
  with assms show ?thesis by (simp add: flushPage_def)
next
  case GetBlob
  with assms show ?thesis by (simp add: getBlob_def Let_def flushPage_def)
qed


lemma unat_of_nat_byte: "k \<le> 255 \<Longrightarrow> unat (of_nat k :: byte) = k"
  by (simp add: unat_of_nat)

lemma length_idHeaderPacket [simp]: "length (idHeaderPacket s) = 19"
  by (simp add: idHeaderPacket_def Let_def)

lemma length_commentHeaderPacket [simp]: "length commentHeaderPacket = 37"
  by (simp add: commentHeaderPacket_def Let_def vendor_def)

lemma packetFits_headerCalls: "c \<in> set (headerCalls rate n) \<Longrightarrow> packetFits c"
  by (auto simp add: headerCalls_def segmentsOf_def)

lemma consistent_construct: "consistent (construct rate n r)"
  unfolding construct_run by (rule consistent_run) (rule consistent_emptyMuxer)

lemma samplesOf_append: "samplesOf (xs @ ys) = samplesOf xs + samplesOf ys"
  by (induction xs rule: samplesOf.induct) simp_all

lemma samplesOf_headerCalls: "samplesOf (headerCalls rate n) = 0"
  by (simp add: headerCalls_def)

lemma unat_of_nat_64: "k < 2 ^ 64 \<Longrightarrow> unat (of_nat k :: 64 word) = k"
  by (simp add: unat_of_nat)

lemma pages_run_prefix: "pages (run calls s) = pages s @ emittedBy calls s"
proof -
  have "take (length (pages s)) (pages (run calls s)) = pages s"
  proof (induction calls rule: rev_induct)
    case Nil
    then show ?case by (simp add: run_def)
  next
    case (snoc c calls)
    have "length (pages s) \<le> length (pages (run calls s))"
      by (metis snoc.IH length_take min.cobounded1 min.commute)
    with snoc show ?case
      by (simp add: run_snoc pages_perform)
  qed
  then show ?thesis
    by (metis append_take_drop_id emittedBy_def)
qed

lemma emittedBy_Nil [simp]: "emittedBy [] s = []"
  by (simp add: emittedBy_def run_def)

lemma run_Cons: "run (c # calls) s = run calls (perform c s)"
  by (simp add: run_def)

lemma emittedBy_Cons: "emittedBy (c # calls) s = emitted c s @ emittedBy calls (perform c s)"
proof -
  have "pages (run (c # calls) s) = (pages s @ emitted c s) @ emittedBy calls (perform c s)"
    by (simp add: run_Cons pages_run_prefix [of calls "perform c s"] pages_perform)
  then show ?thesis
    by (simp add: emittedBy_def)
qed

lemma pageBody_buffer:
  assumes "consistent s" and "map fst pending = packetBuffer s"
  shows "drop 27 (serializePage isLast s) = pageBody pending"
proof -
  from assms(1) have "packetSizes s = map length (packetBuffer s)"
    by (simp add: consistent_def)
  then have "packetSizes s = map (\<lambda>(p, k). length p) pending"
    by (simp add: assms(2) [symmetric] split_def comp_def)
  then have "concat (map lacingValues (packetSizes s)) =
      concat (map (\<lambda>(p, k). lacingValues (length p)) pending)"
    by (simp add: split_def comp_def)
  then show ?thesis
    by (simp add: serializePage_fields [OF assms(1)] pageBody_def assms(2))
qed

lemma emittedBy_emptyMuxer: "emittedBy calls (emptyMuxer rate n r) = pages (run calls (emptyMuxer rate n r))"
  by (simp add: pages_run_prefix [of calls "emptyMuxer rate n r"]) (simp add: emptyMuxer_def)

lemma replicate_19:
  "replicate 19 x = [x, x, x, x, x, x, x, x, x, x, x, x, x, x, x, x, x, x, x]"
  by (simp add: eval_nat_numeral)

lemma idHeaderPacket_bytes:
  "idHeaderPacket s =
     [0x4f, 0x70, 0x75, 0x73, 0x48, 0x65, 0x61, 0x64, 1, of_int (channels s), 0, 0] @
     le32 (of_int (sampleRate s)) @ [0, 0, 0]"
  by (simp add: idHeaderPacket_def Let_def replicate_19 setUint8_def setUint16_def
      setUint32_def le32_def list_update_Cons_numeral)

lemma first_page_construct:
  "drop 27 (hd (pages (construct rate n r))) = [19] @ idHeaderPacket (emptyMuxer rate n r)"
proof -
  let ?e = "emptyMuxer rate n r"
  let ?s = "addPacket (idHeaderPacket ?e) 0 ?e"
  have c: "consistent ?s"
    by (intro consistent_addPacket consistent_emptyMuxer)
  have "packetBuffer ?s = [idHeaderPacket ?e]" and "packetSizes ?s = [19]"
    by (simp_all add: addPacket_def Let_def emptyMuxer_def)
  then show ?thesis
    by (simp add: pages_construct serializePage_fields [OF c] lacingValues_small)
qed

lemma serializePage_empty:
  assumes "consistent s" and "packetBuffer s = []"
  shows "serializePage isLast s = pageHeader isLast s (calculateCRC (unsummedPage isLast s))"
proof -
  from assms have "packetSizes s = []" by (simp add: consistent_def)
  then show ?thesis
    by (simp add: serializePage_layout [OF assms(1)] assms(2))
qed

lemma segments_buffer:
  assumes "consistent s"
  shows "segmentsInBuffer s = sum_list (map (\<lambda>p. length p div 255 + 1) (packetBuffer s))"
    and "concat (map lacingValues (packetSizes s)) =
      concat (map (\<lambda>p. replicate (length p div 255) 255 @ [of_nat (length p mod 255)])
        (packetBuffer s))"
  using assms by (simp_all add: consistent_def comp_def segmentsOf_def lacingValues_def)

lemma unat_lacing_tail: "unat (of_nat (L mod 255) :: byte) = L mod 255"
proof -
  have "L mod 255 < 255" by simp
  then show ?thesis by (simp add: unat_of_nat)
qed

text \<open>
  Every page of a run was emitted by one of its calls, from the state that the calls
  before it had reached: what holds of the pages that any call emits from any such state
  holds of every page.
\<close>

lemma page_of_run_emitted:
  assumes "pg \<in> set (pages (run calls s))"
  shows "pg \<in> set (pages s) \<or>
    (\<exists>earlier c rest. calls = earlier @ c # rest \<and> pg \<in> set (emitted c (run earlier s)))"
  using assms
proof (induction calls rule: rev_induct)
  case Nil
  then show ?case by (simp add: run_def)
next
  case (snoc c calls)
  from snoc.prems have "pg \<in> set (pages (run calls s)) \<or> pg \<in> set (emitted c (run calls s))"
    by (simp add: run_snoc pages_perform)
  then show ?case
  proof
    assume "pg \<in> set (pages (run calls s))"
    from snoc.IH [OF this] show ?thesis
    proof
      assume "pg \<in> set (pages s)"
      then show ?thesis ..
    next
      assume "\<exists>earlier c rest. calls = earlier @ c # rest \<and> pg \<in> set (emitted c (run earlier s))"
      then obtain d c' rest where "calls = d @ c' # rest" and "pg \<in> set (emitted c' (run d s))"
        by blast
      then have "calls @ [c] = d @ c' # (rest @ [c]) \<and> pg \<in> set (emitted c' (run d s))"
        by simp
      then show ?thesis by blast
    qed
  next
    assume "pg \<in> set (emitted c (run calls s))"
    then have "calls @ [c] = calls @ c # [] \<and> pg \<in> set (emitted c (run calls s))"
      by simp
    then show ?thesis by blast
  qed
qed

section \<open>The granule counter\<close>

lemma granule_flushPage [simp]: "granulePosition (flushPage isLast s) = granulePosition s"
  by (simp add: flushPage_def)

lemma granule_addPacket: "granulePosition (addPacket p k s) = jsAdd (granulePosition s) k"
  by (simp add: addPacket_def Let_def)

lemma granule_getBlob [simp]: "granulePosition (snd (getBlob s)) = granulePosition s"
  by (simp add: getBlob_def Let_def)

lemma isDouble_perform: "isDouble (granulePosition s) \<Longrightarrow> isDouble (granulePosition (perform c s))"
  by (cases c) (simp_all add: granule_addPacket isDouble_jsAdd)

lemma isDouble_run: "isDouble (granulePosition s) \<Longrightarrow> isDouble (granulePosition (run calls s))"
  by (induction calls rule: rev_induct) (simp_all add: run_def isDouble_perform)

lemma isDouble_emptyMuxer: "isDouble (granulePosition (emptyMuxer rate n r))"
  by (simp add: emptyMuxer_def isDouble_0)

lemma granule_perform_ge:
  "isDouble (granulePosition s) \<Longrightarrow> granulePosition s \<le> granulePosition (perform c s)"
  by (cases c) (simp_all add: granule_addPacket jsAdd_ge)

text \<open>While the exact sum is at most \<open>2 ^ 53\<close>, the counter is the exact sum.\<close>

lemma granule_run_exact:
  "granulePosition s + samplesOf calls \<le> 2 ^ 53 \<Longrightarrow>
   granulePosition (run calls s) = granulePosition s + samplesOf calls"
proof (induction calls arbitrary: s)
  case Nil
  then show ?case by (simp add: run_def)
next
  case (Cons c calls)
  show ?case
  proof (cases c)
    case (AddPacket p k)
    with Cons.prems have le: "granulePosition s + k \<le> 2 ^ 53"
      and le': "(granulePosition s + k) + samplesOf calls \<le> 2 ^ 53"
      by simp_all
    from le have g: "granulePosition (addPacket p k s) = granulePosition s + k"
      by (simp only: granule_addPacket jsAdd_exact)
    from le' have "granulePosition (addPacket p k s) + samplesOf calls \<le> 2 ^ 53"
      by (simp only: g)
    from Cons.IH [OF this] show ?thesis
      by (simp add: AddPacket run_Cons g)
  next
    case (FlushPage b)
    with Cons.prems Cons.IH [of "flushPage b s"] show ?thesis
      by (simp add: run_Cons)
  next
    case GetBlob
    with Cons.prems Cons.IH [of "snd (getBlob s)"] show ?thesis
      by (simp add: run_Cons)
  qed
qed

lemma granule_exact:
  "samplesOf calls \<le> 2 ^ 53 \<Longrightarrow>
   granulePosition (run calls (emptyMuxer rate n r)) = samplesOf calls"
  using granule_run_exact [of "emptyMuxer rate n r" calls] by (simp add: emptyMuxer_def)

text \<open>
  While the counter is below \<open>2 ^ 64\<close>, the granule fields of the pages are the values
  that the counter had, in non-decreasing order, and none is above the counter.
\<close>

lemma granules_sorted:
  assumes "granulePosition (run calls (emptyMuxer rate n r)) < 2 ^ 64"
  shows "sorted (map (\<lambda>pg. unat (pageGranule pg)) (pages (run calls (emptyMuxer rate n r)))) \<and>
    (\<forall>pg\<in>set (pages (run calls (emptyMuxer rate n r))).
       unat (pageGranule pg) \<le> granulePosition (run calls (emptyMuxer rate n r)))"
  using assms
proof (induction calls rule: rev_induct)
  case Nil
  then show ?case by (simp add: run_def emptyMuxer_def)
next
  case (snoc c calls)
  let ?s = "run calls (emptyMuxer rate n r)"
  have d: "isDouble (granulePosition ?s)"
    by (intro isDouble_run isDouble_emptyMuxer)
  then have mono: "granulePosition ?s \<le> granulePosition (perform c ?s)"
    by (rule granule_perform_ge)
  with snoc.prems have b: "granulePosition ?s < 2 ^ 64"
    by (simp add: run_snoc)
  note ih = snoc.IH [OF b]
  have c: "consistent ?s"
    by (rule consistent_run) (rule consistent_emptyMuxer)
  have new: "unat (pageGranule pg) = granulePosition ?s" if "pg \<in> set (emitted c ?s)" for pg
  proof -
    from that have "pg = serializePage (terminal c) ?s" by (rule emitted_cases)
    with b show ?thesis
      by (simp add: serializePage_fields [OF c] unat_of_nat_64)
  qed
  have "sorted (map (\<lambda>pg. unat (pageGranule pg)) (pages ?s @ emitted c ?s))"
  proof (cases "emitted c ?s = []")
    case True
    with ih show ?thesis by simp
  next
    case False
    with emitted_shape [of c ?s] have e: "emitted c ?s = [serializePage (terminal c) ?s]"
      by simp
    with new have "unat (pageGranule (serializePage (terminal c) ?s)) = granulePosition ?s"
      by simp
    with ih show ?thesis
      by (simp add: e sorted_append)
  qed
  moreover have "\<forall>pg\<in>set (pages ?s @ emitted c ?s).
      unat (pageGranule pg) \<le> granulePosition (perform c ?s)"
    using ih new mono by fastforce
  ultimately show ?case
    by (simp only: run_snoc pages_perform)
qed

lemma granules_construct:
  "map (\<lambda>pg. unat (pageGranule pg)) (pages (construct rate n r)) = [0, 0]"
proof -
  let ?e = "emptyMuxer rate n r"
  let ?i = "addPacket (idHeaderPacket ?e) 0 ?e"
  let ?j = "addPacket commentHeaderPacket 0 (writeIdHeader ?e)"
  have ci: "consistent ?i"
    by (intro consistent_addPacket consistent_emptyMuxer)
  have cj: "consistent ?j"
    unfolding writeIdHeader_def
    by (intro consistent_addPacket consistent_flushPage consistent_emptyMuxer)
  have gi: "granulePosition ?i = 0" and gj: "granulePosition ?j = 0"
    by (simp_all add: granule_addPacket writeIdHeader_def emptyMuxer_def)
  show ?thesis
    by (simp only: pages_construct list.map serializePage_fields [OF ci]
        serializePage_fields [OF cj] gi gj) simp
qed

section \<open>The packets of each page\<close>

lemma packetsOf_append: "packetsOf (xs @ ys) = packetsOf xs @ packetsOf ys"
  by (induction xs rule: packetsOf.induct) simp_all

lemma samplesOf_packetsOf: "samplesOf calls = sum_list (map snd (packetsOf calls))"
  by (induction calls rule: samplesOf.induct) simp_all

text \<open>
  Every packet that a run passes to \<open>addPacket\<close> is, in order, in the group of one page
  or among the pending ones.
\<close>

lemma packets_accounted:
  "concat (groups calls s pending) @ pendingOf calls s pending = pending @ packetsOf calls"
proof (induction calls arbitrary: s pending)
  case Nil
  then show ?case by simp
next
  case (Cons c calls)
  then show ?case by (cases c) simp_all
qed

lemma lacingCount_buffer:
  assumes "consistent s" and "map fst pending = packetBuffer s"
  shows "lacingCount pending = segmentsInBuffer s"
proof -
  from assms(1) have "segmentsInBuffer s = sum_list (map (\<lambda>p. length p div 255 + 1) (packetBuffer s))"
    by (rule segments_buffer)
  then show ?thesis
    by (simp add: assms(2) [symmetric] lacingCount_def comp_def split_def)
qed

lemma groups_pages:
  assumes "consistent s" and "map fst pending = packetBuffer s"
  shows "map (drop 27) (emittedBy calls s) = map pageBody (groups calls s pending) \<and>
    map pageSegmentCount (emittedBy calls s) =
      map (\<lambda>g. of_nat (lacingCount g)) (groups calls s pending) \<and>
    map fst (pendingOf calls s pending) = packetBuffer (run calls s)"
  using assms
proof (induction calls arbitrary: s pending)
  case Nil
  then show ?case by (simp add: run_def)
next
  case (Cons c calls)
  let ?s' = "perform c s"
  have c': "consistent ?s'" using Cons.prems(1) by (rule consistent_perform)
  have body: "drop 27 (serializePage (terminal c) s) = pageBody pending"
    using Cons.prems(1,2) by (rule pageBody_buffer)
  have count: "pageSegmentCount (serializePage (terminal c) s) = of_nat (lacingCount pending)"
    by (simp add: serializePage_fields [OF Cons.prems(1)] lacingCount_buffer [OF Cons.prems])
  show ?case
  proof (cases "emitted c s = []")
    case True
    define pending' where
      "pending' = (case c of AddPacket p k \<Rightarrow> pending @ [(p, k)] | _ \<Rightarrow> pending)"
    have g: "groups (c # calls) s pending = groups calls ?s' pending'"
      and p: "pendingOf (c # calls) s pending = pendingOf calls ?s' pending'"
      using True by (cases c; simp add: pending'_def)+
    have b: "map fst pending' = packetBuffer ?s'"
      using True Cons.prems(2)
      by (cases c) (auto simp add: pending'_def emitted_AddPacket emitted_FlushPage emitted_GetBlob
          packetBuffer_addPacket flushPage_def split: if_splits)
    from Cons.IH [OF c' b] True g p show ?thesis
      by (simp add: emittedBy_Cons run_Cons)
  next
    case False
    with emitted_shape [of c s] have e: "emitted c s = [serializePage (terminal c) s]"
      by simp
    define pending' where "pending' = (case c of AddPacket p k \<Rightarrow> [(p, k)] | _ \<Rightarrow> [])"
    have g: "groups (c # calls) s pending = pending # groups calls ?s' pending'"
      and p: "pendingOf (c # calls) s pending = pendingOf calls ?s' pending'"
      using False by (cases c; simp add: pending'_def)+
    have b: "map fst pending' = packetBuffer ?s'"
      using False
      by (cases c) (auto simp add: pending'_def emitted_AddPacket emitted_FlushPage emitted_GetBlob
          packetBuffer_addPacket flushPage_def getBlob_def Let_def split: if_splits)
    from Cons.IH [OF c' b] e g p body count show ?thesis
      by (simp add: emittedBy_Cons run_Cons)
  qed
qed

text \<open>
  With packets of at most 255 segments each, no group has more than 255 lacing values.
\<close>

lemma groups_fit:
  assumes "consistent s" and "map fst pending = packetBuffer s"
    and "segmentsInBuffer s \<le> 255" and "list_all packetFits calls"
  shows "list_all (\<lambda>g. lacingCount g \<le> 255) (groups calls s pending)"
  using assms
proof (induction calls arbitrary: s pending)
  case Nil
  then show ?case by simp
next
  case (Cons c calls)
  let ?s' = "perform c s"
  from Cons.prems(4) have fc: "packetFits c" and fcs: "list_all packetFits calls" by simp_all
  have c': "consistent ?s'" using Cons.prems(1) by (rule consistent_perform)
  have le': "segmentsInBuffer ?s' \<le> 255"
    using Cons.prems(1,3) fc by (rule segments_perform_le)
  have n: "lacingCount pending \<le> 255"
    using Cons.prems(3) by (simp only: lacingCount_buffer [OF Cons.prems(1,2)])
  show ?case
  proof (cases "emitted c s = []")
    case True
    define pending' where
      "pending' = (case c of AddPacket p k \<Rightarrow> pending @ [(p, k)] | _ \<Rightarrow> pending)"
    have g: "groups (c # calls) s pending = groups calls ?s' pending'"
      using True by (cases c) (simp_all add: pending'_def)
    have b: "map fst pending' = packetBuffer ?s'"
      using True Cons.prems(2)
      by (cases c) (auto simp add: pending'_def emitted_AddPacket emitted_FlushPage emitted_GetBlob
          packetBuffer_addPacket flushPage_def split: if_splits)
    from Cons.IH [OF c' b le' fcs] g show ?thesis by simp
  next
    case False
    define pending' where "pending' = (case c of AddPacket p k \<Rightarrow> [(p, k)] | _ \<Rightarrow> [])"
    have g: "groups (c # calls) s pending = pending # groups calls ?s' pending'"
      using False by (cases c) (simp_all add: pending'_def)
    have b: "map fst pending' = packetBuffer ?s'"
      using False
      by (cases c) (auto simp add: pending'_def emitted_AddPacket emitted_FlushPage emitted_GetBlob
          packetBuffer_addPacket flushPage_def getBlob_def Let_def split: if_splits)
    from Cons.IH [OF c' b le' fcs] g n show ?thesis by simp
  qed
qed


lemma groups_append:
  "groups (xs @ ys) s pending =
     groups xs s pending @ groups ys (run xs s) (pendingOf xs s pending)"
proof (induction xs arbitrary: s pending)
  case Nil
  then show ?case by (simp add: run_def)
next
  case (Cons c xs)
  then show ?case by (cases c) (simp_all add: run_Cons)
qed

lemma pendingOf_append:
  "pendingOf (xs @ ys) s pending = pendingOf ys (run xs s) (pendingOf xs s pending)"
proof (induction xs arbitrary: s pending)
  case Nil
  then show ?case by (simp add: run_def)
next
  case (Cons c xs)
  then show ?case by (cases c) (simp_all add: run_Cons)
qed

lemma groups_headerCalls:
  "groups (headerCalls rate n) (emptyMuxer rate n r) [] =
     [[(idHeaderPacket (emptyMuxer rate n 0), 0)], [(commentHeaderPacket, 0)]]"
  "pendingOf (headerCalls rate n) (emptyMuxer rate n r) [] = []"
  by (simp_all add: headerCalls_def emitted_AddPacket emitted_FlushPage packetBuffer_addPacket
      flushPage_def emptyMuxer_def)

lemma lacingCount_length:
  "lacingCount g = length (concat (map (\<lambda>(p, k).
      replicate (length p div 255) 255 @ [of_nat (length p mod 255) :: byte]) g))"
  by (induction g) (simp_all add: lacingCount_def split_def)

lemma pageBody_lacing:
  "pageBody g = concat (map (\<lambda>(p, k).
      replicate (length p div 255) 255 @ [of_nat (length p mod 255)]) g) @ concat (map fst g)"
  by (simp add: pageBody_def lacingValues_def)

lemma groups_from_empty:
  "map (drop 27) (pages (run calls (emptyMuxer rate n r))) =
     map pageBody (groups calls (emptyMuxer rate n r) [])"
  "map pageSegmentCount (pages (run calls (emptyMuxer rate n r))) =
     map (\<lambda>g. of_nat (lacingCount g)) (groups calls (emptyMuxer rate n r) [])"
  "map fst (pendingOf calls (emptyMuxer rate n r) []) =
     packetBuffer (run calls (emptyMuxer rate n r))"
  using groups_pages [OF consistent_emptyMuxer, of "[]" rate n r calls]
  by (simp_all add: emittedBy_emptyMuxer) (simp_all add: emptyMuxer_def)


lemma fit_from_empty:
  "list_all packetFits calls \<Longrightarrow>
   list_all (\<lambda>g. lacingCount g \<le> 255) (groups calls (emptyMuxer rate n r) [])"
  using groups_fit [OF consistent_emptyMuxer, of "[]" rate n r calls]
  by (simp add: emptyMuxer_def)

lemma counts_small:
  assumes "map pageSegmentCount ps = map (\<lambda>g. of_nat (lacingCount g)) gs"
  shows "list_all2 (\<lambda>pg g. lacingCount g \<le> 255 \<longrightarrow> unat (pageSegmentCount pg) = lacingCount g)
    ps gs"
  using assms
proof (induction ps arbitrary: gs)
  case Nil
  then show ?case by simp
next
  case (Cons pg ps)
  then obtain g gs' where gs: "gs = g # gs'" by (cases gs) auto
  with Cons.prems have h: "pageSegmentCount pg = of_nat (lacingCount g)"
    and t: "map pageSegmentCount ps = map (\<lambda>g. of_nat (lacingCount g)) gs'"
    by simp_all
  from h have "lacingCount g \<le> 255 \<longrightarrow> unat (pageSegmentCount pg) = lacingCount g"
    by (simp add: unat_of_nat_byte)
  with Cons.IH [OF t] show ?case by (simp add: gs)
qed


lemma replicate_2: "replicate 2 x = [x, x]"
  by (simp add: numeral_2_eq_2)

section \<open>Properties of the specification\<close>

subsection \<open>Checksum\<close>

text \<open>
  Claim C1. Every page that a muxer has pushed, the two header pages included, stores at
  the offsets 22 to 25 the little-endian value that the checksum algorithm gives for the
  page with those four bytes set to zero. The algorithm is \<open>_calculateCRC\<close> with its
  table of 256 entries, and it is the bitwise CRC with the polynomial \<open>0x04C11DB7\<close>,
  most significant bit first, from a zero register. \<open>_calculateCRC\<close> skips the field by
  itself, so that it gives the same value on the finished page.
\<close>

theorem checksum_of_emitted_page:
  assumes "pg \<in> set (pages (run calls (emptyMuxer rate n r)))"
  shows "pageChecksum pg = calculateCRC (zeroChecksum pg) \<and>
         pageChecksum pg = crc32msb (zeroChecksum pg) \<and>
         pageChecksum pg = calculateCRC pg \<and>
         length makeCRCTable = 256"
proof -
  from pages_run_cases [OF assms] obtain isLast s' where pg: "pg = serializePage isLast s'"
    by (auto simp add: emptyMuxer_def)
  have "pageChecksum pg = calculateCRC (zeroChecksum pg)"
    unfolding pg by (rule checksum_serializePage)
  moreover have "calculateCRC (zeroChecksum pg) = crc32msb (zeroChecksum pg)"
    by (simp only: calculateCRC_zeroChecksum) (rule calculateCRC_crc32msb)
  moreover have "length makeCRCTable = 256"
    by (simp add: makeCRCTable_def)
  ultimately show ?thesis
    by (simp add: calculateCRC_zeroChecksum)
qed

text \<open>The first page of a muxer for 48 kHz stereo is such a page.\<close>

theorem checksum_of_emitted_page_witness:
  "hd (pages (run (headerCalls 48000 2) (emptyMuxer 48000 2 7)))
     \<in> set (pages (run (headerCalls 48000 2) (emptyMuxer 48000 2 7))) \<and>
   pageChecksum (hd (pages (run (headerCalls 48000 2) (emptyMuxer 48000 2 7)))) =
     crc32msb (zeroChecksum (hd (pages (run (headerCalls 48000 2) (emptyMuxer 48000 2 7)))))"
proof -
  have mem: "hd (pages (run (headerCalls 48000 2) (emptyMuxer 48000 2 7)))
     \<in> set (pages (run (headerCalls 48000 2) (emptyMuxer 48000 2 7)))"
    by (simp add: construct_run [symmetric] pages_construct)
  from mem checksum_of_emitted_page [OF mem] show ?thesis
    by blast
qed

subsection \<open>Page sequence numbers\<close>

text \<open>
  Claim C5. The sequence-number fields of the pages of a muxer, the header pages included,
  are the indices of the pages in emission order, as 32-bit values: page \<open>i\<close> holds
  \<open>i mod 2 ^ 32\<close>. A JavaScript array holds fewer than \<open>2 ^ 32\<close> elements, so that for
  every array \<open>pages\<close> the fields are exactly \<open>0, 1, ..., N - 1\<close>.
\<close>

theorem page_sequence_numbers:
  "map (\<lambda>pg. unat (pageSeqNo pg)) (pages (run calls (emptyMuxer rate n r))) =
     map (\<lambda>i. i mod 2 ^ 32) [0..<length (pages (run calls (emptyMuxer rate n r)))] \<and>
   (length (pages (run calls (emptyMuxer rate n r))) \<le> 2 ^ 32 \<longrightarrow>
    map (\<lambda>pg. unat (pageSeqNo pg)) (pages (run calls (emptyMuxer rate n r))) =
      [0..<length (pages (run calls (emptyMuxer rate n r)))])"
proof -
  let ?ps = "pages (run calls (emptyMuxer rate n r))"
  have "map pageSeqNo ?ps = map of_nat [0..<length ?ps]"
    by (rule seqNo_run) (simp_all add: consistent_emptyMuxer, simp add: emptyMuxer_def)
  then have "map unat (map pageSeqNo ?ps) =
      map unat (map (of_nat :: nat \<Rightarrow> 32 word) [0..<length ?ps])"
    by simp
  then have a: "map (\<lambda>pg. unat (pageSeqNo pg)) ?ps = map (\<lambda>i. i mod 2 ^ 32) [0..<length ?ps]"
    by (simp add: comp_def unat_of_nat)
  have "length ?ps \<le> 2 ^ 32 \<Longrightarrow> map (\<lambda>i. i mod 2 ^ 32) [0..<length ?ps] = [0..<length ?ps]"
    by (rule map_idI) simp
  with a show ?thesis by simp
qed

text \<open>The two header pages and the page of \<open>getBlob\<close> are numbered 0, 1, 2.\<close>

theorem page_sequence_numbers_witness:
  "length (pages (run (headerCalls 48000 2 @ [GetBlob]) (emptyMuxer 48000 2 7))) \<le> 2 ^ 32 \<and>
   map (\<lambda>pg. unat (pageSeqNo pg))
     (pages (run (headerCalls 48000 2 @ [GetBlob]) (emptyMuxer 48000 2 7))) = [0, 1, 2]"
proof -
  have len: "length (pages (run (headerCalls 48000 2 @ [GetBlob]) (emptyMuxer 48000 2 7))) = 3"
    by (simp add: run_headerCalls_GetBlob pages_construct)
  have "[0..<3] = [0, 1, 2::nat]"
    by (simp add: upt_rec)
  with len page_sequence_numbers [of "headerCalls 48000 2 @ [GetBlob]" 48000 2 7]
  show ?thesis by simp
qed

subsection \<open>Capture pattern and header type\<close>

text \<open>
  Claim C6. A page that a call emits from a state reached by any run of calls begins with
  the four bytes of the capture pattern, has bit \<open>0x02\<close> of its header type set exactly
  when no page was emitted before it, and has bit \<open>0x04\<close> set exactly when the call is a
  terminal flush (\<open>flushPage(true)\<close> or \<open>getBlob\<close>). The pages of the constructor are
  emitted by the calls of \<open>headerCalls\<close>, the first of them by the flush after the
  identification header.
\<close>

theorem page_well_formed:
  assumes "s = run calls (emptyMuxer rate n r)" and "pg \<in> set (emitted c s)"
  shows "take 4 pg = capturePattern \<and>
         ((pageHeaderType pg AND 0x02 \<noteq> 0) = (pages s = [])) \<and>
         ((pageHeaderType pg AND 0x04 \<noteq> 0) = terminal c)"
proof -
  have c: "consistent s"
    unfolding assms(1) by (rule consistent_run) (rule consistent_emptyMuxer)
  then have "pageSequence s = length (pages s)"
    by (simp add: consistent_def)
  moreover from assms(2) have "pg = serializePage (terminal c) s"
    by (rule emitted_cases)
  ultimately show ?thesis
    by (simp add: serializePage_fields [OF c] headerType_bits)
qed

text \<open>The page of \<open>getBlob\<close> after the headers: not the first page, and terminal.\<close>

theorem page_well_formed_witness:
  "serializePage True (run (headerCalls 48000 2) (emptyMuxer 48000 2 7))
     \<in> set (emitted GetBlob (run (headerCalls 48000 2) (emptyMuxer 48000 2 7))) \<and>
   take 4 (serializePage True (run (headerCalls 48000 2) (emptyMuxer 48000 2 7))) =
     [0x4f, 0x67, 0x67, 0x53] \<and>
   pageHeaderType (serializePage True (run (headerCalls 48000 2) (emptyMuxer 48000 2 7)))
     AND 0x02 = 0 \<and>
   pageHeaderType (serializePage True (run (headerCalls 48000 2) (emptyMuxer 48000 2 7)))
     AND 0x04 \<noteq> 0"
proof -
  let ?s = "run (headerCalls 48000 2) (emptyMuxer 48000 2 7)"
  have mem: "serializePage True ?s \<in> set (emitted GetBlob ?s)"
    by (simp add: emitted_GetBlob)
  have "pages ?s \<noteq> []"
    by (simp add: construct_run [symmetric] pages_construct)
  with mem page_well_formed [OF refl mem] show ?thesis
    by (simp add: capturePattern_def)
qed

subsection \<open>Flushing an empty buffer\<close>



subsection \<open>The segment budget of a page\<close>



subsection \<open>Construction\<close>

text \<open>
  Claim C8, as the code has it. The constructor checks neither argument and has no error
  path, whatever integers it is given: it returns a muxer with the two header pages and an
  empty buffer, and the identification header holds the channel count modulo 256 and the
  sample rate modulo \<open>2 ^ 32\<close>, little-endian, behind the lacing value 19 and the tag
  \<open>OpusHead\<close> with version 1.
\<close>

theorem construction_without_checks:
  "newOggOpusMuxer rate n r = Returned (construct rate n r) \<and>
   length (pages (construct rate n r)) = 2 \<and>
   pageSequence (construct rate n r) = 2 \<and>
   packetBuffer (construct rate n r) = [] \<and>
   drop 27 (hd (pages (construct rate n r))) =
     [19, 0x4f, 0x70, 0x75, 0x73, 0x48, 0x65, 0x61, 0x64, 1, of_int n, 0, 0] @
     le32 (of_int rate) @ [0, 0, 0]"
proof -
  have "drop 27 (hd (pages (construct rate n r))) = [19] @ idHeaderPacket (emptyMuxer rate n r)"
    by (rule first_page_construct)
  also have "idHeaderPacket (emptyMuxer rate n r) =
      [0x4f, 0x70, 0x75, 0x73, 0x48, 0x65, 0x61, 0x64, 1, of_int n, 0, 0] @
      le32 (of_int rate) @ [0, 0, 0]"
    by (simp add: idHeaderPacket_bytes emptyMuxer_def)
  finally have "drop 27 (hd (pages (construct rate n r))) =
      [19, 0x4f, 0x70, 0x75, 0x73, 0x48, 0x65, 0x61, 0x64, 1, of_int n, 0, 0] @
      le32 (of_int rate) @ [0, 0, 0]"
    by simp
  moreover have "length (pages (construct rate n r)) = 2"
    by (simp add: pages_construct)
  ultimately show ?thesis
    by (simp only: state_construct simp_thms newOggOpusMuxer_def)
qed

text \<open>
  The claim as stated fails for a sample rate of 0 and a channel count of -1: the
  construction does not throw, and the header holds 255 channels and the rate 0.
\<close>

theorem construction_without_checks_counterexample:
  "newOggOpusMuxer 0 (- 1) 7 \<noteq> Thrown \<and>
   length (pages (construct 0 (- 1) 7)) = 2 \<and>
   drop 27 (hd (pages (construct 0 (- 1) 7))) =
     [19, 0x4f, 0x70, 0x75, 0x73, 0x48, 0x65, 0x61, 0x64, 1, 255, 0, 0, 0, 0, 0, 0, 0, 0, 0]"
proof -
  have "drop 27 (hd (pages (construct 0 (- 1) 7))) =
      [19] @ idHeaderPacket (emptyMuxer 0 (- 1) 7)"
    by (rule first_page_construct)
  also have "idHeaderPacket (emptyMuxer 0 (- 1) 7) =
      [0x4f, 0x70, 0x75, 0x73, 0x48, 0x65, 0x61, 0x64, 1, 255, 0, 0, 0, 0, 0, 0, 0, 0, 0]"
    by (simp add: idHeaderPacket_bytes emptyMuxer_def le32_def)
  finally have "drop 27 (hd (pages (construct 0 (- 1) 7))) =
      [19, 0x4f, 0x70, 0x75, 0x73, 0x48, 0x65, 0x61, 0x64, 1, 255, 0, 0, 0, 0, 0, 0, 0, 0, 0]"
    by simp
  moreover have "length (pages (construct 0 (- 1) 7)) = 2"
    by (simp add: pages_construct)
  ultimately show ?thesis by (simp add: newOggOpusMuxer_def)
qed

subsection \<open>The stream of a muxer without audio packets\<close>

text \<open>
  Claim C7, as the code has it. \<open>getBlob\<close> right after construction appends a third
  page, which is the 27 bytes of the page header and nothing else: its segment-count byte
  is 0, it has no lacing value and no payload, and its header type is \<open>0x04\<close>, the
  end-of-stream flag alone.
\<close>

theorem final_page_after_construction:
  "pages (snd (getBlob (construct rate n r))) =
     pages (construct rate n r) @ [serializePage True (construct rate n r)] \<and>
   length (pages (snd (getBlob (construct rate n r)))) = 3 \<and>
   serializePage True (construct rate n r) =
     pageHeader True (construct rate n r)
       (calculateCRC (unsummedPage True (construct rate n r))) \<and>
   length (serializePage True (construct rate n r)) = 27 \<and>
   pageSegmentCount (serializePage True (construct rate n r)) = 0 \<and>
   drop 27 (serializePage True (construct rate n r)) = [] \<and>
   pageHeaderType (serializePage True (construct rate n r)) = 0x04"
proof -
  let ?s = "construct rate n r"
  note e = serializePage_empty [OF consistent_construct state_construct(1), of True rate n r]
  have "length (serializePage True ?s) = 27"
    by (simp add: e)
  moreover have "pageHeaderType (serializePage True ?s) = 0x04"
    by (simp add: serializePage_fields [OF consistent_construct] headerType_def Let_def
        state_construct)
  moreover have "pageSegmentCount (serializePage True ?s) = 0"
    by (simp add: serializePage_fields [OF consistent_construct] state_construct)
  moreover have "drop 27 (serializePage True ?s) = []"
    by (simp add: serializePage_fields [OF consistent_construct] state_construct)
  ultimately show ?thesis
    using e by (simp add: pages_getBlob pages_construct)
qed

text \<open>
  The claim as stated, a page of the header plus one segment byte of value 0, fails: the
  page has 27 bytes, not 28, and no byte follows the header.
\<close>

theorem final_page_after_construction_counterexample:
  "length (last (pages (snd (getBlob (construct 48000 2 7))))) \<noteq> 27 + 1 \<and>
   drop 27 (last (pages (snd (getBlob (construct 48000 2 7))))) \<noteq> [0]"
proof -
  have "last (pages (snd (getBlob (construct 48000 2 7)))) = serializePage True (construct 48000 2 7)"
    by (simp add: pages_getBlob)
  moreover have "serializePage True (construct 48000 2 7) =
      pageHeader True (construct 48000 2 7) (calculateCRC (unsummedPage True (construct 48000 2 7)))"
    by (rule serializePage_empty [OF consistent_construct state_construct(1)])
  ultimately show ?thesis
    by simp
qed

subsection \<open>Granule position\<close>

text \<open>
  Claim C4, as the code has it. The counter \<open>granulePosition\<close> is a double:
  \<open>addPacket\<close> adds the sample count to it and rounds the sum (\<open>jsAdd\<close>). A page
  emitted from a state reached by a run of calls holds the counter of that state in its
  granule field, as a 64-bit value. While the sum of the sample counts passed so far is
  at most \<open>2 ^ 53\<close>, the counter is that sum, and the field read as an unsigned number
  is the sum itself; the calls of the constructor pass 0 twice. While the counter is below
  \<open>2 ^ 64\<close>, the field of an emitted page is the counter, no earlier page holds more,
  and the fields of the pages so far are in non-decreasing order.
\<close>

theorem granule_position:
  assumes "s = run calls (emptyMuxer rate n r)"
  shows "(\<forall>pg\<in>set (emitted c s). pageGranule pg = of_nat (granulePosition s)) \<and>
         (samplesOf calls \<le> 2 ^ 53 \<longrightarrow>
            granulePosition s = samplesOf calls \<and>
            (\<forall>pg\<in>set (emitted c s). unat (pageGranule pg) = samplesOf calls)) \<and>
         (granulePosition s < 2 ^ 64 \<longrightarrow>
            (\<forall>pg\<in>set (emitted c s). unat (pageGranule pg) = granulePosition s) \<and>
            (\<forall>pg\<in>set (pages s). unat (pageGranule pg) \<le> granulePosition s) \<and>
            sorted (map (\<lambda>pg. unat (pageGranule pg)) (pages s))) \<and>
         granulePosition (perform (AddPacket p k) s) = jsAdd (granulePosition s) k \<and>
         samplesOf (headerCalls rate n) = 0"
proof -
  have c: "consistent s"
    unfolding assms by (rule consistent_run) (rule consistent_emptyMuxer)
  have new: "pageGranule pg = of_nat (granulePosition s)" if "pg \<in> set (emitted c s)" for pg
  proof -
    from that have "pg = serializePage (terminal c) s" by (rule emitted_cases)
    then show ?thesis
      by (simp add: serializePage_fields [OF c])
  qed
  have small: "\<forall>pg\<in>set (emitted c s). unat (pageGranule pg) = granulePosition s"
    if "granulePosition s < 2 ^ 64"
    using that new by (simp add: unat_of_nat_64)
  have exact: "granulePosition s = samplesOf calls \<and>
      (\<forall>pg\<in>set (emitted c s). unat (pageGranule pg) = samplesOf calls)"
    if "samplesOf calls \<le> 2 ^ 53"
  proof -
    from that have g: "granulePosition s = samplesOf calls"
      unfolding assms by (rule granule_exact)
    have "(2::nat) ^ 53 < 2 ^ 64" by simp
    with that have "samplesOf calls < 2 ^ 64" by (rule le_less_trans)
    then have "granulePosition s < 2 ^ 64" by (simp only: g)
    from small [OF this] g show ?thesis by simp
  qed
  have order: "(\<forall>pg\<in>set (pages s). unat (pageGranule pg) \<le> granulePosition s) \<and>
      sorted (map (\<lambda>pg. unat (pageGranule pg)) (pages s))"
    if "granulePosition s < 2 ^ 64"
    using that granules_sorted [of calls rate n r] by (simp add: assms)
  have add: "granulePosition (perform (AddPacket p k) s) = jsAdd (granulePosition s) k"
    by (simp add: granule_addPacket)
  have h: "samplesOf (headerCalls rate n) = 0"
    by (rule samplesOf_headerCalls)
  from new small exact order add h show ?thesis
    by blast
qed

text \<open>One packet of 960 samples after the headers, then \<open>getBlob\<close>.\<close>

theorem granule_position_witness:
  "samplesOf (headerCalls 48000 2 @ [AddPacket [1, 2, 3] 960]) \<le> 2 ^ 53 \<and>
   granulePosition
     (run (headerCalls 48000 2 @ [AddPacket [1, 2, 3] 960]) (emptyMuxer 48000 2 7)) < 2 ^ 64 \<and>
   serializePage True (run (headerCalls 48000 2 @ [AddPacket [1, 2, 3] 960]) (emptyMuxer 48000 2 7))
     \<in> set (emitted GetBlob
           (run (headerCalls 48000 2 @ [AddPacket [1, 2, 3] 960]) (emptyMuxer 48000 2 7))) \<and>
   unat (pageGranule (serializePage True
     (run (headerCalls 48000 2 @ [AddPacket [1, 2, 3] 960]) (emptyMuxer 48000 2 7)))) = 960 \<and>
   sorted (map (\<lambda>pg. unat (pageGranule pg)) (pages
       (run (headerCalls 48000 2 @ [AddPacket [1, 2, 3] 960]) (emptyMuxer 48000 2 7))))"
proof -
  let ?calls = "headerCalls 48000 2 @ [AddPacket [1, 2, 3] 960]"
  let ?s = "run ?calls (emptyMuxer 48000 2 7)"
  have n: "samplesOf ?calls = 960"
    by (simp add: samplesOf_append samplesOf_headerCalls)
  have g: "granulePosition ?s = 960"
    by (simp add: run_snoc construct_run [symmetric] granule_addPacket state_construct jsAdd_exact)
  have mem: "serializePage True ?s \<in> set (emitted GetBlob ?s)"
    by (simp add: emitted_GetBlob)
  from granule_position [OF refl, where calls = ?calls and c = GetBlob and rate = 48000
      and n = 2 and r = 7] mem
  show ?thesis
    by (simp add: n g)
qed

text \<open>
  The claim as stated fails beyond these bounds. After a packet of \<open>2 ^ 53\<close> samples
  and a packet of one sample the sum is \<open>2 ^ 53 + 1\<close>, which is no double: the counter
  stays \<open>2 ^ 53\<close>, and the page of \<open>getBlob\<close> holds \<open>2 ^ 53\<close>. After two packets of
  \<open>2 ^ 63\<close> samples, each followed by \<open>flushPage\<close>, the counter is \<open>2 ^ 64\<close>, of
  which the 64-bit field keeps 0: the granule fields of the four pages are 0, 0,
  \<open>2 ^ 63\<close> and 0.
\<close>

theorem granule_position_counterexample:
  "samplesOf (headerCalls 48000 2 @ [AddPacket [1] (2 ^ 53), AddPacket [2] 1]) = 2 ^ 53 + 1 \<and>
   emitted GetBlob
       (run (headerCalls 48000 2 @ [AddPacket [1] (2 ^ 53), AddPacket [2] 1])
          (emptyMuxer 48000 2 7))
     = [serializePage True
         (run (headerCalls 48000 2 @ [AddPacket [1] (2 ^ 53), AddPacket [2] 1])
            (emptyMuxer 48000 2 7))] \<and>
   unat (pageGranule (serializePage True
       (run (headerCalls 48000 2 @ [AddPacket [1] (2 ^ 53), AddPacket [2] 1])
          (emptyMuxer 48000 2 7))))
     = 2 ^ 53 \<and>
   map (\<lambda>pg. unat (pageGranule pg))
     (pages (run (headerCalls 48000 2 @
        [AddPacket [1] (2 ^ 63), FlushPage False, AddPacket [2] (2 ^ 63), FlushPage False])
          (emptyMuxer 48000 2 7)))
     = [0, 0, 2 ^ 63, 0]"
proof -
  let ?e = "emptyMuxer 48000 2 7"
  let ?calls = "headerCalls 48000 2 @ [AddPacket [1] (2 ^ 53), AddPacket [2] 1]"
  let ?s = "run ?calls ?e"
  have n: "samplesOf ?calls = 2 ^ 53 + 1"
    by (simp add: samplesOf_append samplesOf_headerCalls)
  have c: "consistent ?s"
    by (rule consistent_run) (rule consistent_emptyMuxer)
  have s: "?s = addPacket [2] 1 (addPacket [1] (2 ^ 53) (construct 48000 2 7))"
    by (simp add: run_append run_def construct_run)
  have "granulePosition ?s = jsAdd (jsAdd 0 (2 ^ 53)) 1"
    by (simp only: s granule_addPacket state_construct)
  also have "jsAdd 0 (2 ^ 53) = 2 ^ 53"
    by (simp add: jsAdd_exact)
  also have "jsAdd (2 ^ 53) 1 = 2 ^ 53"
    by (simp add: jsAdd_def roundToDouble_odd [simplified])
  finally have g: "granulePosition ?s = 2 ^ 53" .
  have u: "unat (pageGranule (serializePage True ?s)) = 2 ^ 53"
    by (simp only: serializePage_fields [OF c] g) (simp add: unat_of_nat_64)
  let ?calls2 = "headerCalls 48000 2 @
        [AddPacket [1] (2 ^ 63), FlushPage False, AddPacket [2] (2 ^ 63), FlushPage False]"
  let ?a = "addPacket [1] (2 ^ 63) (construct 48000 2 7)"
  let ?b = "addPacket [2] (2 ^ 63) (flushPage False ?a)"
  have ca: "consistent ?a"
    by (intro consistent_addPacket consistent_construct)
  have cb: "consistent ?b"
    by (intro consistent_addPacket consistent_flushPage consistent_construct)
  have ga: "granulePosition ?a = 2 ^ 63"
    using roundToDouble_power [of 63] by (simp add: granule_addPacket state_construct jsAdd_def)
  have "granulePosition ?b = jsAdd (granulePosition ?a) (2 ^ 63)"
    by (simp only: granule_addPacket granule_flushPage)
  also have "\<dots> = 2 ^ 64"
    unfolding ga jsAdd_def using roundToDouble_power [of 64] by simp
  finally have gb: "granulePosition ?b = 2 ^ 64" .
  have s2: "run ?calls2 ?e = flushPage False ?b"
    by (simp add: run_append run_def construct_run)
  have ba: "packetBuffer ?a \<noteq> []" and bb: "packetBuffer ?b \<noteq> []"
    by (simp_all add: packetBuffer_addPacket)
  have sa: "segmentsInBuffer (flushPage False ?a) = 0"
    using ba by (simp add: flushPage_def)
  have pa: "pages ?a = pages (construct 48000 2 7)"
    by (simp add: addPacket_def Let_def state_construct flushPage_def)
  have pb: "pages ?b = pages (flushPage False ?a)"
    by (simp add: addPacket_def Let_def sa flushPage_def)
  have p2: "pages (run ?calls2 ?e) =
      pages (construct 48000 2 7) @ [serializePage False ?a, serializePage False ?b]"
    by (simp only: s2 pages_flushPage ba bb pb pa) simp
  have "map (\<lambda>pg. unat (pageGranule pg)) (pages (run ?calls2 ?e)) = [0, 0, 2 ^ 63, 0]"
    by (simp only: p2 map_append granules_construct list.map serializePage_fields [OF ca]
        serializePage_fields [OF cb] ga gb) (simp add: unat_of_nat_64)
  with n u show ?thesis
    by (simp add: emitted_GetBlob)
qed

subsection \<open>The granule of an implicitly flushed page\<close>




subsection \<open>Lacing values\<close>

text \<open>
  Claim C2, as the code has it. For every run of calls, the bytes behind the header of
  each page are, for each packet of the page in order, \<open>floor(L/255)\<close> bytes of value
  255 followed by one byte \<open>L mod 255\<close>, where \<open>L\<close> is the length of the packet, and
  then the packets themselves; the packets of a page are those passed to \<open>addPacket\<close>
  since the page before (\<open>groups\<close>). Every packet passed to \<open>addPacket\<close> is, in
  order, in one page or among the pending packets, which are those of the buffer. The
  number of lacing values of a page is \<open>lacingCount\<close> of its packets. The segment-count
  byte of the page is that number modulo 256. It is the number itself when the number is
  at most 255, and that is so for every page of a run in which each packet needs at most
  255 segments.
\<close>

theorem lacing_values_of_page:
  assumes "s = run calls (emptyMuxer rate n r)"
  shows "map (drop 27) (pages s) =
           map (\<lambda>g. concat (map (\<lambda>(p, k).
                  replicate (length p div 255) 255 @ [of_nat (length p mod 255)]) g) @
                concat (map fst g))
             (groups calls (emptyMuxer rate n r) []) \<and>
         concat (groups calls (emptyMuxer rate n r) []) @
           pendingOf calls (emptyMuxer rate n r) [] = packetsOf calls \<and>
         map fst (pendingOf calls (emptyMuxer rate n r) []) = packetBuffer s \<and>
         unat (of_nat (L mod 255) :: byte) = L mod 255 \<and>
         lacingCount g = length (concat (map (\<lambda>(p, k).
             replicate (length p div 255) 255 @ [of_nat (length p mod 255) :: byte]) g)) \<and>
         map pageSegmentCount (pages s) =
           map (\<lambda>g. of_nat (lacingCount g)) (groups calls (emptyMuxer rate n r) []) \<and>
         list_all2 (\<lambda>pg g. lacingCount g \<le> 255 \<longrightarrow> unat (pageSegmentCount pg) = lacingCount g)
           (pages s) (groups calls (emptyMuxer rate n r) []) \<and>
         (list_all packetFits calls \<longrightarrow>
            list_all (\<lambda>g. lacingCount g \<le> 255) (groups calls (emptyMuxer rate n r) []))"
proof -
  have "pageBody = (\<lambda>g. concat (map (\<lambda>(p, k).
             replicate (length p div 255) 255 @ [of_nat (length p mod 255)]) g) @
           concat (map fst g))"
    by (rule ext) (rule pageBody_lacing)
  then have b: "map (drop 27) (pages s) =
      map (\<lambda>g. concat (map (\<lambda>(p, k).
             replicate (length p div 255) 255 @ [of_nat (length p mod 255)]) g) @
           concat (map fst g))
        (groups calls (emptyMuxer rate n r) [])"
    unfolding assms by (simp only: groups_from_empty)
  have acc: "concat (groups calls (emptyMuxer rate n r) []) @
      pendingOf calls (emptyMuxer rate n r) [] = packetsOf calls"
    using packets_accounted [of calls "emptyMuxer rate n r" "[]"] by simp
  have pend: "map fst (pendingOf calls (emptyMuxer rate n r) []) = packetBuffer s"
    unfolding assms by (rule groups_from_empty)
  have count: "map pageSegmentCount (pages s) =
      map (\<lambda>g. of_nat (lacingCount g)) (groups calls (emptyMuxer rate n r) [])"
    unfolding assms by (rule groups_from_empty)
  note small = counts_small [OF count]
  have fits: "list_all (\<lambda>g. lacingCount g \<le> 255) (groups calls (emptyMuxer rate n r) [])"
    if "list_all packetFits calls"
    using that by (rule fit_from_empty)
  from b acc pend count small fits unat_lacing_tail [of L] lacingCount_length [of g]
  show ?thesis
    by blast
qed

text \<open>
  After the headers, a packet of 510 bytes, an empty packet and a packet of 64300 bytes,
  which forces a flush, then \<open>getBlob\<close>. The third page holds the first two packets
  with the lacing values 255, 255, 0 and 0; the fourth holds the last packet with 252
  lacing values of 255 and one of 40. The segment counts are 1, 1, 4 and 253.
\<close>

theorem lacing_values_of_page_witness:
  "list_all packetFits (headerCalls 48000 2 @
       [AddPacket (replicate 510 7) 960, AddPacket [] 960, AddPacket (replicate 64300 1) 960,
        GetBlob]) \<and>
   groups (headerCalls 48000 2 @
       [AddPacket (replicate 510 7) 960, AddPacket [] 960, AddPacket (replicate 64300 1) 960,
        GetBlob]) (emptyMuxer 48000 2 7) []
     = [[(idHeaderPacket (emptyMuxer 48000 2 0), 0)], [(commentHeaderPacket, 0)],
        [(replicate 510 7, 960), ([], 960)], [(replicate 64300 1, 960)]] \<and>
   map (drop 27) (pages (run (headerCalls 48000 2 @
       [AddPacket (replicate 510 7) 960, AddPacket [] 960, AddPacket (replicate 64300 1) 960,
        GetBlob]) (emptyMuxer 48000 2 7)))
     = [[19] @ idHeaderPacket (emptyMuxer 48000 2 0),
        [37] @ commentHeaderPacket,
        [255, 255, 0, 0] @ replicate 510 7,
        (replicate 252 255 @ [40]) @ replicate 64300 1] \<and>
   map (\<lambda>pg. unat (pageSegmentCount pg)) (pages (run (headerCalls 48000 2 @
       [AddPacket (replicate 510 7) 960, AddPacket [] 960, AddPacket (replicate 64300 1) 960,
        GetBlob]) (emptyMuxer 48000 2 7)))
     = [1, 1, 4, 253]"
proof -
  let ?e = "emptyMuxer 48000 2 7"
  let ?rest = "[AddPacket (replicate 510 7) 960, AddPacket [] 960,
      AddPacket (replicate 64300 1) 960, GetBlob]"
  let ?calls = "headerCalls 48000 2 @ ?rest"
  let ?gs = "[[(idHeaderPacket (emptyMuxer 48000 2 0), 0 :: nat)], [(commentHeaderPacket, 0)],
        [(replicate 510 7, 960), ([], 960)], [(replicate 64300 1, 960)]]"
  have fits: "list_all packetFits ?calls"
    by (auto simp add: list_all_iff segmentsOf_def dest: packetFits_headerCalls)
  have g: "groups ?rest (construct 48000 2 7) [] =
      [[(replicate 510 7, 960), ([], 960)], [(replicate 64300 1, 960)]]"
    by (simp add: emitted_AddPacket emitted_GetBlob segments_addPacket consistent_addPacket
        consistent_construct packetBuffer_addPacket state_construct segmentsOf_def)
  have g': "groups ?calls ?e [] = ?gs"
    by (simp only: groups_append groups_headerCalls construct_run [symmetric] g) simp
  have counts: "map lacingCount ?gs = [1, 1, 4, 253]"
    by (simp add: lacingCount_def)
  note inst = lacing_values_of_page [OF refl, where calls = ?calls and rate = 48000 and n = 2
      and r = 7 and L = 0 and g = "[]", unfolded g']
  from inst have "map (drop 27) (pages (run ?calls ?e)) =
      map (\<lambda>g. concat (map (\<lambda>(p, k).
             replicate (length p div 255) 255 @ [of_nat (length p mod 255)]) g) @
           concat (map fst g)) ?gs"
    by (rule conjunct1)
  then have bodies: "map (drop 27) (pages (run ?calls ?e)) =
      [[19] @ idHeaderPacket (emptyMuxer 48000 2 0),
        [37] @ commentHeaderPacket,
        [255, 255, 0, 0] @ replicate 510 7,
        (replicate 252 255 @ [40]) @ replicate 64300 1]"
    by (simp add: replicate_2)
  from inst have "list_all2 (\<lambda>pg g. lacingCount g \<le> 255 \<longrightarrow>
      unat (pageSegmentCount pg) = lacingCount g) (pages (run ?calls ?e)) ?gs"
    by blast
  then have "map (\<lambda>pg. unat (pageSegmentCount pg)) (pages (run ?calls ?e)) = map lacingCount ?gs"
    using counts by (auto simp add: list_all2_Cons2)
  with counts fits g' bodies show ?thesis
    by (simp only:)
qed

text \<open>
  The claim as stated fails for a packet of 65025 bytes: it is alone in its page, the page
  has 256 lacing values, 255 of value 255 and one of value 0, and its segment-count byte
  is 0.
\<close>

theorem lacing_values_of_page_counterexample:
  "serializePage True
       (run (headerCalls 48000 2 @ [AddPacket (replicate 65025 0) 960]) (emptyMuxer 48000 2 7))
     \<in> set (emitted GetBlob
       (run (headerCalls 48000 2 @ [AddPacket (replicate 65025 0) 960]) (emptyMuxer 48000 2 7))) \<and>
   take 256 (drop 27 (serializePage True
       (run (headerCalls 48000 2 @ [AddPacket (replicate 65025 0) 960]) (emptyMuxer 48000 2 7))))
     = replicate 255 255 @ [0] \<and>
   drop 256 (drop 27 (serializePage True
       (run (headerCalls 48000 2 @ [AddPacket (replicate 65025 0) 960]) (emptyMuxer 48000 2 7))))
     = replicate 65025 0 \<and>
   unat (pageSegmentCount (serializePage True
       (run (headerCalls 48000 2 @ [AddPacket (replicate 65025 0) 960]) (emptyMuxer 48000 2 7))))
     = 0"
proof -
  let ?calls = "headerCalls 48000 2 @ [AddPacket (replicate 65025 0) 960]"
  let ?s = "run ?calls (emptyMuxer 48000 2 7)"
  have s: "?s = addPacket (replicate 65025 0) 960 (construct 48000 2 7)"
    by (simp add: run_snoc construct_run)
  have c: "consistent ?s"
    by (rule consistent_run) (rule consistent_emptyMuxer)
  have buf: "packetBuffer ?s = [replicate 65025 0]"
    unfolding s by (simp add: packetBuffer_addPacket state_construct segmentsOf_def)
  then have sizes: "packetSizes ?s = [65025]"
    using c by (simp add: consistent_def)
  have segs: "segmentsInBuffer ?s = 256"
    unfolding s
    by (simp add: segments_addPacket [OF consistent_construct] state_construct segmentsOf_def)
  have lv: "lacingValues 65025 = replicate 255 255 @ [0]"
    by (simp only: lacingValues_def) simp
  have mem: "serializePage True ?s \<in> set (emitted GetBlob ?s)"
    by (simp add: emitted_GetBlob)
  have "drop 27 (serializePage True ?s) = (replicate 255 255 @ [0]) @ replicate 65025 0"
    by (simp only: serializePage_fields [OF c] sizes buf) (simp add: lv)
  moreover have "length (replicate 255 (255 :: byte) @ [0]) = 256"
    by simp
  moreover have "unat (pageSegmentCount (serializePage True ?s)) = 0"
    by (simp add: serializePage_fields [OF c] segs)
  ultimately show ?thesis
    using mem by (simp del: replicate_Suc)
qed

end
